theory Spec2Isabelle
  imports Main
begin

section \<open>JavaScript values\<close>

text \<open>
  The framework file (FlowFramework) is modelled over a small universe of JavaScript
  values. Objects with identity (nodes, successor tables, plain data objects) live in a
  store and are denoted by \<open>JRef\<close>; arrays and error objects are carried as values.
  Numbers are modelled as integers (whole attempt counts, whole seconds); an integer
  stands for the number whose shortest decimal form it is.
\<close>

type_synonym addr = nat

datatype jsval =
    JUndefined
  | JNull
  | JBool bool
  | JNum int
  | JStr string
  | JArr "jsval list"
  | JRef addr
  | JError string string

text \<open>ToBoolean: what \<open>!x\<close>, \<open>x || y\<close> and \<open>while (x)\<close> test.\<close>

fun truthy :: "jsval \<Rightarrow> bool" where
  "truthy JUndefined = False"
| "truthy JNull = False"
| "truthy (JBool b) = b"
| "truthy (JNum n) = (n \<noteq> 0)"
| "truthy (JStr s) = (s \<noteq> [])"
| "truthy (JArr xs) = True"
| "truthy (JRef a) = True"
| "truthy (JError n m) = True"

fun typeof :: "jsval \<Rightarrow> string" where
  "typeof JUndefined = ''undefined''"
| "typeof JNull = ''object''"
| "typeof (JBool b) = ''boolean''"
| "typeof (JNum n) = ''number''"
| "typeof (JStr s) = ''string''"
| "typeof (JArr xs) = ''object''"
| "typeof (JRef a) = ''object''"
| "typeof (JError n m) = ''object''"

fun isArray :: "jsval \<Rightarrow> bool" where
  "isArray (JArr xs) = True"
| "isArray v = False"

text \<open>
  Decimal rendering of a number, as \<open>String(n)\<close> gives for an integer: the digits
  below \<open>10^21\<close>, and from there on the exponent form (\<open>1e+21\<close>,
  \<open>1.5e+22\<close>).
\<close>

function dec_digits :: "int \<Rightarrow> string" where
  "dec_digits n =
     (if n < 10 then [''0123456789'' ! nat n]
      else dec_digits (n div 10) @ [''0123456789'' ! nat (n mod 10)])"
  by pat_completeness auto
termination
  by (relation "measure nat") auto

declare dec_digits.simps [simp del]

definition strip_zeros :: "string \<Rightarrow> string" where
  "strip_zeros ds = rev (dropWhile (\<lambda>c. c = CHR ''0'') (rev ds))"

definition exponent_form :: "int \<Rightarrow> string" where
  "exponent_form n =
     (let ds = dec_digits n; sig = strip_zeros ds in
      hd sig # (if tl sig = [] then [] else CHR ''.'' # tl sig)
        @ ''e+'' @ dec_digits (int (length ds) - 1))"

definition num_to_string :: "int \<Rightarrow> string" where
  "num_to_string n =
     (let m = \<bar>n\<bar> in
      (if n < 0 then ''-'' else [])
        @ (if m < 1000000000000000000000 then dec_digits m else exponent_form m))"

fun join_with :: "string \<Rightarrow> string list \<Rightarrow> string" where
  "join_with sep [] = []"
| "join_with sep [x] = x"
| "join_with sep (x # y # ys) = x @ sep @ join_with sep (y # ys)"

text \<open>
  ToString, as used for a template literal and for a computed property key
  (\<open>obj[key]\<close>). An array joins its elements with a comma, \<open>null\<close> and
  \<open>undefined\<close> elements giving the empty string; an object without a \<open>toString\<close>
  of its own gives \<open>[object Object]\<close>; an error gives \<open>name: message\<close>.
\<close>

fun to_string :: "jsval \<Rightarrow> string" where
  "to_string JUndefined = ''undefined''"
| "to_string JNull = ''null''"
| "to_string (JBool b) = (if b then ''true'' else ''false'')"
| "to_string (JNum n) = num_to_string n"
| "to_string (JStr s) = s"
| "to_string (JArr xs) =
     join_with '','' (map (\<lambda>x. if x = JUndefined \<or> x = JNull then [] else to_string x) xs)"
| "to_string (JRef a) = ''[object Object]''"
| "to_string (JError n m) = (if m = [] then n else if n = [] then m else n @ '': '' @ m)"

text \<open>
  The result of reading a property: a value, a function object found on a prototype
  (only its name is kept), or the object \<open>Object.prototype\<close> itself.
\<close>

datatype member =
    Val jsval
  | NativeFun string
  | ObjectProto

fun truthy_member :: "member \<Rightarrow> bool" where
  "truthy_member (Val v) = truthy v"
| "truthy_member (NativeFun f) = True"
| "truthy_member ObjectProto = True"

section \<open>The store: nodes, successor tables, data objects\<close>

text \<open>The classes of the framework; every one of them extends \<open>BaseNode\<close>.\<close>

datatype node_class =
    BaseNode | Node | BatchNode | Flow | BatchFlow
  | AsyncNode | AsyncBatchNode | AsyncParallelBatchNode
  | AsyncFlow | AsyncBatchFlow | AsyncParallelBatchFlow

text \<open>
  A node object. \<open>cls\<close> is the framework class it was constructed from and \<open>impl\<close>
  names the user's subclass (the prototype that carries the overridden lifecycle
  methods). \<open>params\<close> holds whatever \<open>setParams\<close> stored (normally a reference to a
  data object), \<open>successors\<close> the address of the successor table created by the
  constructor. The retry fields exist on the \<open>Node\<close> family and on \<open>AsyncFlow\<close>,
  \<open>startNode\<close> on flows, \<open>batchImpl\<close> on \<open>AsyncBatchNode\<close>.
\<close>

record node =
  cls :: node_class
  impl :: nat
  params :: jsval
  successors :: addr
  maxRetries :: int
  wait :: int
  curRetry :: int
  startNode :: jsval
  batchImpl :: jsval

text \<open>
  A successor table is the plain object \<open>{}\<close> made by the constructor: its own
  properties in insertion order, and its prototype (\<open>None\<close> is \<open>Object.prototype\<close>;
  assigning a node to the key \<open>__proto__\<close> replaces the prototype by that node).
\<close>

record succ_obj =
  own :: "(string \<times> jsval) list"
  sproto :: "addr option"

datatype obj =
    ONode node
  | OSucc succ_obj
  | OData "(string \<times> jsval) list"

type_synonym store = "obj list"

definition obj_at :: "store \<Rightarrow> addr \<Rightarrow> obj option" where
  "obj_at h a = (if a < length h then Some (h ! a) else None)"

definition node_at :: "store \<Rightarrow> addr \<Rightarrow> node option" where
  "node_at h a = (case obj_at h a of Some (ONode n) \<Rightarrow> Some n | _ \<Rightarrow> None)"

definition succ_at :: "store \<Rightarrow> addr \<Rightarrow> succ_obj option" where
  "succ_at h a = (case obj_at h a of Some (OSucc so) \<Rightarrow> Some so | _ \<Rightarrow> None)"

definition data_at :: "store \<Rightarrow> addr \<Rightarrow> (string \<times> jsval) list option" where
  "data_at h a = (case obj_at h a of Some (OData kvs) \<Rightarrow> Some kvs | _ \<Rightarrow> None)"

text \<open>\<open>x instanceof BaseNode\<close>: every class of the framework extends \<open>BaseNode\<close>.\<close>

definition instanceof_BaseNode :: "store \<Rightarrow> jsval \<Rightarrow> bool" where
  "instanceof_BaseNode h v = (case v of JRef a \<Rightarrow> node_at h a \<noteq> None | _ \<Rightarrow> False)"

definition is_async_node_class :: "node_class \<Rightarrow> bool" where
  "is_async_node_class c = (c = AsyncNode \<or> c = AsyncBatchNode \<or> c = AsyncParallelBatchNode)"

definition is_flow_class :: "node_class \<Rightarrow> bool" where
  "is_flow_class c = (c = Flow \<or> c = BatchFlow \<or> c = AsyncFlow \<or> c = AsyncBatchFlow
     \<or> c = AsyncParallelBatchFlow)"

definition is_async_flow_class :: "node_class \<Rightarrow> bool" where
  "is_async_flow_class c = (c = AsyncFlow \<or> c = AsyncBatchFlow \<or> c = AsyncParallelBatchFlow)"


subsection \<open>Property tables\<close>

text \<open>\<open>o[k] = v\<close> on own properties: an existing key keeps its place.\<close>

fun assign :: "string \<Rightarrow> 'v \<Rightarrow> (string \<times> 'v) list \<Rightarrow> (string \<times> 'v) list" where
  "assign k v [] = [(k, v)]"
| "assign k v ((k', v') # kvs) = (if k' = k then (k, v) # kvs else (k', v') # assign k v kvs)"

text \<open>
  An array index among property keys: a canonical decimal numeral below \<open>2^32 - 1\<close>.
  \<open>Object.keys\<close> lists such keys first, in ascending numeric order, then the other
  keys in insertion order.
\<close>

definition digit_val :: "char \<Rightarrow> int" where
  "digit_val c = of_char c - 48"

definition is_digit :: "char \<Rightarrow> bool" where
  "is_digit c = (48 \<le> (of_char c :: int) \<and> (of_char c :: int) \<le> 57)"

definition dec_value :: "string \<Rightarrow> int" where
  "dec_value s = foldl (\<lambda>acc c. 10 * acc + digit_val c) 0 s"

definition array_index :: "string \<Rightarrow> int option" where
  "array_index s =
     (if s \<noteq> [] \<and> list_all is_digit s \<and> (s = ''0'' \<or> hd s \<noteq> CHR ''0'')
         \<and> dec_value s < 4294967295
      then Some (dec_value s) else None)"

definition object_keys :: "(string \<times> 'v) list \<Rightarrow> string list" where
  "object_keys kvs =
     (let ks = map fst kvs in
      sort_key (\<lambda>k. the (array_index k)) (filter (\<lambda>k. array_index k \<noteq> None) ks)
      @ filter (\<lambda>k. array_index k = None) ks)"

text \<open>The members every ordinary object inherits from \<open>Object.prototype\<close>.\<close>

definition object_prototype_names :: "string list" where
  "object_prototype_names =
     [''constructor'', ''__defineGetter__'', ''__defineSetter__'', ''hasOwnProperty'',
      ''__lookupGetter__'', ''__lookupSetter__'', ''isPrototypeOf'',
      ''propertyIsEnumerable'', ''toString'', ''valueOf'', ''toLocaleString'']"

definition object_proto_member :: "string \<Rightarrow> member" where
  "object_proto_member k =
     (if k = ''__proto__'' then ObjectProto
      else if k \<in> set object_prototype_names then NativeFun k
      else Val JUndefined)"

text \<open>
  Own fields of a node, in the order the constructors assign them, and the methods
  its class chain defines (\<open>AsyncFlow\<close> additionally receives, through
  \<open>applyMixins\<close>, the methods of \<open>AsyncNode\<close> that it does not define itself).
\<close>

definition retry_fields :: "node \<Rightarrow> (string \<times> jsval) list" where
  "retry_fields n =
     [(''maxRetries'', JNum (maxRetries n)), (''wait'', JNum (wait n)),
      (''curRetry'', JNum (curRetry n))]"

definition node_fields :: "node \<Rightarrow> (string \<times> jsval) list" where
  "node_fields n =
     [(''params'', params n), (''successors'', JRef (successors n))] @
     (if cls n \<in> {Node, BatchNode, AsyncNode, AsyncBatchNode, AsyncParallelBatchNode}
      then retry_fields n else []) @
     (if cls n = AsyncBatchNode then [(''_batchImpl'', batchImpl n)] else []) @
     (if is_flow_class (cls n) then [(''startNode'', startNode n)] else []) @
     (if is_async_flow_class (cls n)
      then [(''curRetry'', JNum (curRetry n)), (''maxRetries'', JNum (maxRetries n)),
            (''wait'', JNum (wait n))]
      else [])"

definition base_methods :: "string list" where
  "base_methods = [''constructor'', ''setParams'', ''next'', ''prep'', ''exec'', ''post'',
     ''_exec'', ''_run'', ''run'', ''connect'', ''withTransition'']"

definition async_node_methods :: "string list" where
  "async_node_methods = [''prepAsync'', ''execAsync'', ''execFallbackAsync'', ''postAsync'',
     ''runAsync'', ''_runAsync'']"

definition class_methods :: "node_class \<Rightarrow> string list" where
  "class_methods c =
     base_methods @
     (if c \<in> {Node, BatchNode, AsyncNode, AsyncBatchNode, AsyncParallelBatchNode}
      then [''execFallback''] else []) @
     (if is_async_node_class c then async_node_methods else []) @
     (if is_flow_class c then [''start'', ''getNextNode'', ''_orchestrate''] else []) @
     (if is_async_flow_class c
      then ''_orchestrateAsync'' # async_node_methods else [])"

definition node_member :: "store \<Rightarrow> addr \<Rightarrow> string \<Rightarrow> member" where
  "node_member h b k =
     (case node_at h b of
        None \<Rightarrow> Val JUndefined
      | Some n \<Rightarrow>
          (case map_of (node_fields n) k of
             Some v \<Rightarrow> Val v
           | None \<Rightarrow>
               if k \<in> set (class_methods (cls n)) then NativeFun k
               else object_proto_member k))"

text \<open>\<open>t[k]\<close> on a successor table: own property first, then the prototype chain.\<close>

definition succ_get :: "store \<Rightarrow> succ_obj \<Rightarrow> string \<Rightarrow> member" where
  "succ_get h so k =
     (case map_of (own so) k of
        Some v \<Rightarrow> Val v
      | None \<Rightarrow>
          (case sproto so of
             None \<Rightarrow> object_proto_member k
           | Some b \<Rightarrow> if k = ''__proto__'' then Val (JRef b) else node_member h b k))"

text \<open>
  \<open>t[k] = node\<close> for a node object at address \<open>b\<close>: the key \<open>__proto__\<close> runs the
  inherited setter, which replaces the prototype; any other key sets an own property.
\<close>

definition succ_set :: "succ_obj \<Rightarrow> string \<Rightarrow> addr \<Rightarrow> succ_obj" where
  "succ_set so k b =
     (if k = ''__proto__'' then so\<lparr>sproto := Some b\<rparr>
      else so\<lparr>own := assign k (JRef b) (own so)\<rparr>)"

section \<open>State, warnings and lifecycle hooks\<close>

text \<open>
  The warning channel holds a list of handlers, initially \<open>[console.warn]\<close>. What each
  handler received is recorded in \<open>delivered\<close>; the lines \<open>console.warn\<close> received are
  what reaches the standard error stream. User handlers are taken to record the message
  and return. \<open>schedule\<close> belongs to the environment: it is the order in which
  asynchronous calls that are pending together are resumed (see \<open>settle_all\<close>).
\<close>

datatype handler = ConsoleWarn | UserHandler nat

type_synonym outcome = "jsval + jsval"

text \<open>
  Calls of the overridable lifecycle methods, recorded by the model at each call site
  with the receiver, the arguments and the outcome (\<open>Inl\<close> a thrown value, \<open>Inr\<close> a
  returned one); \<open>EvExec\<close> and \<open>EvFallback\<close> also keep \<open>this.curRetry\<close> at the time of
  the call. \<open>EvOrchestrate\<close> records an entry into \<open>_orchestrate\<close> with its \<open>params\<close>
  argument. The \<open>Async\<close> events record the calls of the asynchronous methods
  (\<open>prepAsync\<close>, \<open>execAsync\<close>, \<open>execFallbackAsync\<close>, \<open>postAsync\<close>,
  \<open>_orchestrateAsync\<close>), \<open>EvSleep\<close> a suspension of the asynchronous retry loop
  (milliseconds).
\<close>

datatype event =
    EvPrep addr jsval outcome
  | EvExec addr int jsval outcome
  | EvFallback addr int jsval jsval outcome
  | EvPost addr jsval jsval jsval outcome
  | EvOrchestrate addr jsval
  | EvPrepAsync addr jsval outcome
  | EvExecAsync addr int jsval outcome
  | EvFallbackAsync addr int jsval jsval outcome
  | EvPostAsync addr jsval jsval jsval outcome
  | EvOrchestrateAsync addr jsval
  | EvSleep addr int

record 'w state =
  heap :: store
  world :: 'w
  handlers :: "handler list"
  delivered :: "(handler \<times> string) list"
  timers :: "int list"
  trace :: "event list"
  schedule :: "nat list"

text \<open>
  The lifecycle methods a user subclass may override. Each receives the address of
  \<open>this\<close> and the store to read from, and acts on the world outside the framework's
  objects (the shared context included); \<open>shared\<close> is passed as the reference it is.
  The methods are taken not to assign fields of framework objects.
\<close>

record 'w hooks =
  prep :: "addr \<Rightarrow> store \<Rightarrow> jsval \<Rightarrow> 'w \<Rightarrow> outcome \<times> 'w"
  exec :: "addr \<Rightarrow> store \<Rightarrow> jsval \<Rightarrow> 'w \<Rightarrow> outcome \<times> 'w"
  execFallback :: "addr \<Rightarrow> store \<Rightarrow> jsval \<Rightarrow> jsval \<Rightarrow> 'w \<Rightarrow> outcome \<times> 'w"
  post :: "addr \<Rightarrow> store \<Rightarrow> jsval \<Rightarrow> jsval \<Rightarrow> jsval \<Rightarrow> 'w \<Rightarrow> outcome \<times> 'w"
  prepAsync :: "addr \<Rightarrow> store \<Rightarrow> jsval \<Rightarrow> 'w \<Rightarrow> outcome \<times> 'w"
  execAsync :: "addr \<Rightarrow> store \<Rightarrow> jsval \<Rightarrow> 'w \<Rightarrow> outcome \<times> 'w"
  execFallbackAsync :: "addr \<Rightarrow> store \<Rightarrow> jsval \<Rightarrow> jsval \<Rightarrow> 'w \<Rightarrow> outcome \<times> 'w"
  postAsync :: "addr \<Rightarrow> store \<Rightarrow> jsval \<Rightarrow> jsval \<Rightarrow> jsval \<Rightarrow> 'w \<Rightarrow> outcome \<times> 'w"

text \<open>
  The defaults of the framework: \<open>prep\<close> and \<open>exec\<close> return \<open>null\<close>, \<open>post\<close> returns
  the execution result, \<open>execFallback\<close> throws the error it was given.
\<close>

definition default_hooks :: "'w hooks" where
  "default_hooks =
     \<lparr> prep = (\<lambda>this h shared w. (Inr JNull, w)),
       exec = (\<lambda>this h prepRes w. (Inr JNull, w)),
       execFallback = (\<lambda>this h prepRes exc w. (Inl exc, w)),
       post = (\<lambda>this h shared prepRes execRes w. (Inr execRes, w)),
       prepAsync = (\<lambda>this h shared w. (Inr JNull, w)),
       execAsync = (\<lambda>this h prepRes w. (Inr JNull, w)),
       execFallbackAsync = (\<lambda>this h prepRes exc w. (Inl exc, w)),
       postAsync = (\<lambda>this h shared prepRes execRes w. (Inr execRes, w)) \<rparr>"

subsection \<open>warnings\<close>

definition initial_handlers :: "handler list" where
  "initial_handlers = [ConsoleWarn]"

definition warn :: "string \<Rightarrow> 'w state \<Rightarrow> 'w state" where
  "warn message s = s\<lparr>delivered := delivered s @ map (\<lambda>h. (h, message)) (handlers s)\<rparr>"

definition addHandler :: "jsval + handler \<Rightarrow> 'w state \<Rightarrow> (jsval + unit) \<times> 'w state" where
  "addHandler arg s =
     (case arg of
        Inl v \<Rightarrow> (Inl (JError ''TypeError'' ''Warning handler must be a function''), s)
      | Inr f \<Rightarrow> (Inr (), s\<lparr>handlers := handlers s @ [f]\<rparr>))"

definition clearHandlers :: "'w state \<Rightarrow> 'w state" where
  "clearHandlers s = s\<lparr>handlers := []\<rparr>"

definition stderr_lines :: "'w state \<Rightarrow> string list" where
  "stderr_lines s = map snd (filter (\<lambda>d. fst d = ConsoleWarn) (delivered s))"

text \<open>The state in which the module is loaded, over a given store and world.\<close>

definition initial_state :: "store \<Rightarrow> 'w \<Rightarrow> 'w state" where
  "initial_state h w =
     \<lparr> heap = h, world = w, handlers = initial_handlers, delivered = [], timers = [],
       trace = [], schedule = [] \<rparr>"

subsection \<open>shallowCopy\<close>

text \<open>
  \<open>shallowCopy\<close> returns a primitive as it is, copies an array, and for an object
  makes a new object with the same prototype and the same own enumerable properties:
  property values, references included, are copied as they are. The copy of an error
  object loses \<open>message\<close>, which is not enumerable.
\<close>

definition shallowCopy :: "jsval \<Rightarrow> 'w state \<Rightarrow> jsval \<times> 'w state" where
  "shallowCopy v s =
     (if v = JNull \<or> typeof v \<noteq> ''object'' then (v, s)
      else case v of
        JArr xs \<Rightarrow> (JArr xs, s)
      | JRef a \<Rightarrow>
          (case obj_at (heap s) a of
             None \<Rightarrow> (v, s)
           | Some ob \<Rightarrow> (JRef (length (heap s)), s\<lparr>heap := heap s @ [ob]\<rparr>))
      | JError n m \<Rightarrow> (JError n [], s)
      | _ \<Rightarrow> (v, s))"

text \<open>
  The same on the result of a property read: a function is returned as it is; the copy
  of \<open>Object.prototype\<close> is a new object without enumerable properties.
\<close>

definition shallowCopy_member :: "member \<Rightarrow> 'w state \<Rightarrow> member \<times> 'w state" where
  "shallowCopy_member m s =
     (case m of
        Val v \<Rightarrow> (case shallowCopy v s of (c, s') \<Rightarrow> (Val c, s'))
      | NativeFun f \<Rightarrow> (NativeFun f, s)
      | ObjectProto \<Rightarrow> (Val (JRef (length (heap s))), s\<lparr>heap := heap s @ [OData []]\<rparr>))"

subsection \<open>BaseNode: setParams, next, connect, withTransition\<close>

definition update_node :: "addr \<Rightarrow> (node \<Rightarrow> node) \<Rightarrow> store \<Rightarrow> store" where
  "update_node a f h = (case node_at h a of Some n \<Rightarrow> h[a := ONode (f n)] | None \<Rightarrow> h)"

definition setParams :: "addr \<Rightarrow> jsval \<Rightarrow> 'w state \<Rightarrow> (jsval + unit) \<times> 'w state" where
  "setParams this ps s =
     (if ps = JNull \<or> typeof ps \<noteq> ''object''
      then (Inl (JError ''TypeError'' ''Parameters must be an object''), s)
      else (Inr (), s\<lparr>heap := update_node this (\<lambda>n. n\<lparr>params := ps\<rparr>) (heap s)\<rparr>))"

definition apos :: string where
  "apos = [CHR 0x27]"

text \<open>
  A property read on a value that is not an object of the expected shape (\<open>this\<close> is
  no node, or its \<open>successors\<close> field holds no table) is outside what the constructors
  produce; the model lets it throw, as a read on \<open>undefined\<close> does.
\<close>

definition no_successors_error :: jsval where
  "no_successors_error = JError ''TypeError'' ''Cannot read properties of undefined''"

definition node_next :: "addr \<Rightarrow> jsval \<Rightarrow> jsval \<Rightarrow> 'w state \<Rightarrow> outcome \<times> 'w state" where
  "node_next this nd act s =
     (let action = (if act = JUndefined then JStr ''default'' else act) in
      if \<not> truthy nd \<or> \<not> instanceof_BaseNode (heap s) nd
      then (Inl (JError ''TypeError'' ''Node must be a BaseNode instance''), s)
      else
        (case (action, nd) of
           (JStr a, JRef b) \<Rightarrow>
             (case node_at (heap s) this of
                None \<Rightarrow> (Inl no_successors_error, s)
              | Some n \<Rightarrow>
                  (case succ_at (heap s) (successors n) of
                     None \<Rightarrow> (Inl no_successors_error, s)
                   | Some so \<Rightarrow>
                       (let s1 = (if truthy_member (succ_get (heap s) so a)
                                  then warn (''Overwriting successor for action '' @ apos @ a @ apos) s
                                  else s)
                        in (Inr nd,
                            s1\<lparr>heap := (heap s1)[successors n := OSucc (succ_set so a b)]\<rparr>))))
         | _ \<Rightarrow> (Inl (JError ''TypeError'' ''Action must be a string''), s)))"

definition connect :: "addr \<Rightarrow> jsval \<Rightarrow> 'w state \<Rightarrow> outcome \<times> 'w state" where
  "connect this other s = node_next this other JUndefined s"

record cond_transition =
  src :: addr
  action :: string

definition withTransition :: "addr \<Rightarrow> jsval \<Rightarrow> jsval + cond_transition" where
  "withTransition this act =
     (case act of
        JStr a \<Rightarrow> Inr \<lparr> src = this, action = a \<rparr>
      | _ \<Rightarrow> Inl (JError ''TypeError'' ''Action must be a string''))"

definition transition_connect :: "cond_transition \<Rightarrow> jsval \<Rightarrow> 'w state \<Rightarrow> outcome \<times> 'w state" where
  "transition_connect t tgt s = node_next (src t) tgt (JStr (action t)) s"

text \<open>The value of \<open>a.successors[k]\<close> for the node at \<open>a\<close>.\<close>

definition successor_of :: "store \<Rightarrow> addr \<Rightarrow> string \<Rightarrow> member option" where
  "successor_of h a k =
     (case node_at h a of
        None \<Rightarrow> None
      | Some n \<Rightarrow> (case succ_at h (successors n) of
                     None \<Rightarrow> None
                   | Some so \<Rightarrow> Some (succ_get h so k)))"

subsection \<open>Flow.getNextNode\<close>

text \<open>\<open>JSON.stringify\<close> of an array of strings.\<close>

definition hex_digit :: "nat \<Rightarrow> char" where
  "hex_digit n = ''0123456789abcdef'' ! (n mod 16)"

definition json_escape :: "char \<Rightarrow> string" where
  "json_escape c =
     (if c = CHR 0x22 then [CHR 0x5C, CHR 0x22]
      else if c = CHR 0x5C then [CHR 0x5C, CHR 0x5C]
      else if c = CHR 0x08 then [CHR 0x5C, CHR ''b'']
      else if c = CHR 0x0C then [CHR 0x5C, CHR ''f'']
      else if c = CHR 0x0A then [CHR 0x5C, CHR ''n'']
      else if c = CHR 0x0D then [CHR 0x5C, CHR ''r'']
      else if c = CHR 0x09 then [CHR 0x5C, CHR ''t'']
      else if (of_char c :: nat) < 32
      then [CHR 0x5C, CHR ''u'', CHR ''0'', CHR ''0'',
            hex_digit (of_char c div 16), hex_digit (of_char c)]
      else [c])"

definition json_string :: "string \<Rightarrow> string" where
  "json_string s = [CHR 0x22] @ concat (map json_escape s) @ [CHR 0x22]"

definition json_string_array :: "string list \<Rightarrow> string" where
  "json_string_array ks = ''['' @ join_with '','' (map json_string ks) @ '']''"

definition flow_ends_message :: "string \<Rightarrow> string list \<Rightarrow> string" where
  "flow_ends_message label ks =
     ''Flow ends: '' @ apos @ label @ apos @ '' not found in '' @ json_string_array ks"

definition getNextNode :: "addr \<Rightarrow> jsval \<Rightarrow> 'w state \<Rightarrow> (jsval + member) \<times> 'w state" where
  "getNextNode cur act s =
     (let nextAction = (if truthy act then act else JStr ''default'') in
      case node_at (heap s) cur of
        None \<Rightarrow> (Inl no_successors_error, s)
      | Some n \<Rightarrow>
          (case succ_at (heap s) (successors n) of
             None \<Rightarrow> (Inl no_successors_error, s)
           | Some so \<Rightarrow>
               (let nxt = succ_get (heap s) so (to_string nextAction);
                    s1 = (if \<not> truthy_member nxt \<and> length (object_keys (own so)) > 0
                          then warn (flow_ends_message (to_string nextAction)
                                       (object_keys (own so))) s
                          else s)
                in (Inr nxt, s1))))"

section \<open>The retrying execute phase\<close>

definition record_event :: "event \<Rightarrow> 'w state \<Rightarrow> 'w state" where
  "record_event ev s = s\<lparr>trace := trace s @ [ev]\<rparr>"

text \<open>\<open>this.curRetry\<close>, read from the store.\<close>

definition curRetry_of :: "store \<Rightarrow> addr \<Rightarrow> int" where
  "curRetry_of h a = (case node_at h a of Some n \<Rightarrow> curRetry n | None \<Rightarrow> 0)"

definition set_curRetry :: "addr \<Rightarrow> int \<Rightarrow> 'w state \<Rightarrow> 'w state" where
  "set_curRetry this i s = s\<lparr>heap := update_node this (\<lambda>n. n\<lparr>curRetry := i\<rparr>) (heap s)\<rparr>"

text \<open>The calls \<open>this.exec(prepRes)\<close> and \<open>this.execFallback(prepRes, e)\<close>.\<close>

definition call_exec :: "'w hooks \<Rightarrow> addr \<Rightarrow> jsval \<Rightarrow> 'w state \<Rightarrow> outcome \<times> 'w state" where
  "call_exec hk this prepRes s =
     (case exec hk this (heap s) prepRes (world s) of
        (r, w') \<Rightarrow>
          (r, record_event (EvExec this (curRetry_of (heap s) this) prepRes r)
                (s\<lparr>world := w'\<rparr>)))"

definition call_execFallback ::
  "'w hooks \<Rightarrow> addr \<Rightarrow> jsval \<Rightarrow> jsval \<Rightarrow> 'w state \<Rightarrow> outcome \<times> 'w state" where
  "call_execFallback hk this prepRes e s =
     (case execFallback hk this (heap s) prepRes e (world s) of
        (r, w') \<Rightarrow>
          (r, record_event (EvFallback this (curRetry_of (heap s) this) prepRes e r)
                (s\<lparr>world := w'\<rparr>)))"

text \<open>\<open>BaseNode._exec\<close>: one call of \<open>exec\<close>.\<close>

definition BaseNode_exec :: "'w hooks \<Rightarrow> addr \<Rightarrow> jsval \<Rightarrow> 'w state \<Rightarrow> outcome \<times> 'w state" where
  "BaseNode_exec hk this prepRes s = call_exec hk this prepRes s"

definition sync_wait_message :: string where
  "sync_wait_message =
     ''Synchronous wait in browser JS is not recommended. Consider using AsyncNode instead.''"

text \<open>\<open>setTimeout(() => { }, ms)\<close>: a timer whose callback does nothing is scheduled.\<close>

definition schedule_noop :: "int \<Rightarrow> 'w state \<Rightarrow> 'w state" where
  "schedule_noop ms s = s\<lparr>timers := timers s @ [ms]\<rparr>"

text \<open>
  The loop of \<open>Node._exec\<close>, entered with \<open>this.curRetry = i\<close>. \<open>mx\<close> and \<open>wt\<close> are
  \<open>this.maxRetries\<close> and \<open>this.wait\<close>, which nothing in the loop assigns. When the loop
  condition fails the method falls off its end and returns \<open>undefined\<close>.
\<close>

function retry_loop ::
  "'w hooks \<Rightarrow> addr \<Rightarrow> int \<Rightarrow> int \<Rightarrow> int \<Rightarrow> jsval \<Rightarrow> 'w state \<Rightarrow> outcome \<times> 'w state" where
  "retry_loop hk this mx wt i prepRes s =
     (if i < mx then
        (case call_exec hk this prepRes s of
           (Inr v, s1) \<Rightarrow> (Inr v, s1)
         | (Inl e, s1) \<Rightarrow>
             if i = mx - 1 then call_execFallback hk this prepRes e s1
             else
               retry_loop hk this mx wt (i + 1) prepRes
                 (set_curRetry this (i + 1)
                    (if wt > 0 then schedule_noop (wt * 1000) (warn sync_wait_message s1)
                     else s1)))
      else (Inr JUndefined, s))"
  by pat_completeness auto
termination
  by (relation "measure (\<lambda>(hk, this, mx, wt, i, prepRes, s). nat (mx - i))") auto

declare retry_loop.simps [simp del]

text \<open>
  A method called on an address that holds no node is outside what the framework
  produces; the model lets it throw.
\<close>

definition no_this_error :: jsval where
  "no_this_error = JError ''TypeError'' ''this is not a node''"

definition Node_exec ::
  "(nat \<Rightarrow> 'w hooks) \<Rightarrow> addr \<Rightarrow> jsval \<Rightarrow> 'w state \<Rightarrow> outcome \<times> 'w state" where
  "Node_exec H this prepRes s =
     (case node_at (heap s) this of
        None \<Rightarrow> (Inl no_this_error, s)
      | Some n \<Rightarrow>
          retry_loop (H (impl n)) this (maxRetries n) (wait n) 0 prepRes
            (set_curRetry this 0 s))"

subsection \<open>BatchNode\<close>

text \<open>\<open>items.map(item => super._exec(item))\<close>: left to right, a throw ends the map.\<close>

fun map_exec ::
  "(nat \<Rightarrow> 'w hooks) \<Rightarrow> addr \<Rightarrow> jsval list \<Rightarrow> 'w state \<Rightarrow> (jsval + jsval list) \<times> 'w state" where
  "map_exec H this [] s = (Inr [], s)"
| "map_exec H this (x # xs) s =
     (case Node_exec H this x s of
        (Inl e, s1) \<Rightarrow> (Inl e, s1)
      | (Inr v, s1) \<Rightarrow>
          (case map_exec H this xs s1 of
             (Inl e, s2) \<Rightarrow> (Inl e, s2)
           | (Inr vs, s2) \<Rightarrow> (Inr (v # vs), s2)))"

definition BatchNode_exec ::
  "(nat \<Rightarrow> 'w hooks) \<Rightarrow> addr \<Rightarrow> jsval \<Rightarrow> 'w state \<Rightarrow> outcome \<times> 'w state" where
  "BatchNode_exec H this items s =
     (if \<not> truthy items then (Inr (JArr []), s)
      else
        (case items of
           JArr xs \<Rightarrow>
             (case map_exec H this xs s of
                (Inl e, s1) \<Rightarrow> (Inl e, s1)
              | (Inr vs, s1) \<Rightarrow> (Inr (JArr vs), s1))
         | _ \<Rightarrow>
             (case Node_exec H this items
                     (warn (''BatchNode expected an array but received '' @ typeof items) s) of
                (Inl e, s1) \<Rightarrow> (Inl e, s1)
              | (Inr v, s1) \<Rightarrow> (Inr (JArr [v]), s1))))"

section \<open>Running a node\<close>

definition call_prep :: "'w hooks \<Rightarrow> addr \<Rightarrow> jsval \<Rightarrow> 'w state \<Rightarrow> outcome \<times> 'w state" where
  "call_prep hk this shared s =
     (case prep hk this (heap s) shared (world s) of
        (r, w') \<Rightarrow> (r, record_event (EvPrep this shared r) (s\<lparr>world := w'\<rparr>)))"

definition call_post ::
  "'w hooks \<Rightarrow> addr \<Rightarrow> jsval \<Rightarrow> jsval \<Rightarrow> jsval \<Rightarrow> 'w state \<Rightarrow> outcome \<times> 'w state" where
  "call_post hk this shared prepRes execRes s =
     (case post hk this (heap s) shared prepRes execRes (world s) of
        (r, w') \<Rightarrow>
          (r, record_event (EvPost this shared prepRes execRes r) (s\<lparr>world := w'\<rparr>)))"

text \<open>
  \<open>this._exec(p)\<close> as \<open>BaseNode._run\<close> reaches it: \<open>Node\<close> and \<open>BatchNode\<close> override
  \<open>_exec\<close>; the flows inherit \<open>BaseNode._exec\<close>.
\<close>

definition dispatch_exec ::
  "(nat \<Rightarrow> 'w hooks) \<Rightarrow> node \<Rightarrow> addr \<Rightarrow> jsval \<Rightarrow> 'w state \<Rightarrow> outcome \<times> 'w state" where
  "dispatch_exec H n this prepRes s =
     (if cls n = Node then Node_exec H this prepRes s
      else if cls n = BatchNode then BatchNode_exec H this prepRes s
      else BaseNode_exec (H (impl n)) this prepRes s)"

text \<open>\<open>BaseNode._run\<close>: \<open>prep\<close>, \<open>_exec\<close>, \<open>post\<close>; a throw ends the run.\<close>

definition BaseNode_run ::
  "(nat \<Rightarrow> 'w hooks) \<Rightarrow> node \<Rightarrow> addr \<Rightarrow> jsval \<Rightarrow> 'w state \<Rightarrow> outcome \<times> 'w state" where
  "BaseNode_run H n this shared s =
     (case call_prep (H (impl n)) this shared s of
        (Inl e, s1) \<Rightarrow> (Inl e, s1)
      | (Inr p, s1) \<Rightarrow>
          (case dispatch_exec H n this p s1 of
             (Inl e, s2) \<Rightarrow> (Inl e, s2)
           | (Inr e, s2) \<Rightarrow> call_post (H (impl n)) this shared p e s2))"

text \<open>\<open>AsyncNode._run\<close>: always throws.\<close>

definition async_run_error :: jsval where
  "async_run_error = JError ''Error'' ''AsyncNode cannot be run synchronously. Use runAsync().''"

definition AsyncNode_run :: "addr \<Rightarrow> jsval \<Rightarrow> 'w state \<Rightarrow> outcome \<times> 'w state" where
  "AsyncNode_run this shared s = (Inl async_run_error, s)"

section \<open>Flow orchestration\<close>

text \<open>
  The own enumerable properties a spread \<open>{...v}\<close> copies: none for \<open>null\<close>,
  \<open>undefined\<close>, a boolean, a number or an error object; the characters of a string and
  the elements of an array under their indices; the properties of an object.
\<close>

definition indexed :: "jsval list \<Rightarrow> (string \<times> jsval) list" where
  "indexed xs = map (\<lambda>i. (num_to_string (int i), xs ! i)) [0 ..< length xs]"

definition own_props :: "store \<Rightarrow> jsval \<Rightarrow> (string \<times> jsval) list" where
  "own_props h v =
     (case v of
        JStr cs \<Rightarrow> indexed (map (\<lambda>c. JStr [c]) cs)
      | JArr xs \<Rightarrow> indexed xs
      | JRef a \<Rightarrow>
          (case obj_at h a of
             Some (ONode n) \<Rightarrow> node_fields n
           | Some (OSucc so) \<Rightarrow> own so
           | Some (OData kvs) \<Rightarrow> kvs
           | None \<Rightarrow> [])
      | _ \<Rightarrow> [])"

definition spread_into :: "(string \<times> jsval) list \<Rightarrow> (string \<times> jsval) list \<Rightarrow> (string \<times> jsval) list" where
  "spread_into target kvs = foldl (\<lambda>t kv. assign (fst kv) (snd kv) t) target kvs"

text \<open>An object literal: a new data object in the store.\<close>

definition new_object :: "(string \<times> jsval) list \<Rightarrow> 'w state \<Rightarrow> jsval \<times> 'w state" where
  "new_object kvs s = (JRef (length (heap s)), s\<lparr>heap := heap s @ [OData kvs]\<rparr>)"

type_synonym 'w runner = "addr \<Rightarrow> jsval \<Rightarrow> 'w state \<Rightarrow> (outcome \<times> 'w state) option"

definition not_a_node_error :: jsval where
  "not_a_node_error = JError ''TypeError'' ''currentNode.setParams is not a function''"

text \<open>
  The \<open>while (curr)\<close> loop of \<open>_orchestrate\<close>. \<open>run\<close> is \<open>_run\<close> on the clone. The loop
  may go on for ever (cycles are legal), so it takes fuel: \<open>None\<close> says that the fuel
  did not suffice. A clone that is not a node object has no \<open>setParams\<close> to call, and
  the call throws. Only node objects are run as nodes here: a successor table that has
  been given a node as its prototype (through the key \<open>__proto__\<close>) is treated as the
  plain object it was made as.
\<close>

primrec orchestrate_loop ::
  "'w runner \<Rightarrow> nat \<Rightarrow> member \<Rightarrow> jsval \<Rightarrow> jsval \<Rightarrow> jsval \<Rightarrow> 'w state
     \<Rightarrow> (outcome \<times> 'w state) option" where
  "orchestrate_loop run 0 cur shared p lastAction s = None"
| "orchestrate_loop run (Suc k) cur shared p lastAction s =
     (if \<not> truthy_member cur then Some (Inr lastAction, s)
      else
        (case shallowCopy_member cur s of
           (c, s1) \<Rightarrow>
             (case (cur, c) of
                (Val (JRef a), Val (JRef ca)) \<Rightarrow>
                  (if node_at (heap s1) ca = None then Some (Inl not_a_node_error, s1)
                   else
                     (case setParams ca p s1 of
                        (Inl e, s2) \<Rightarrow> Some (Inl e, s2)
                      | (Inr u, s2) \<Rightarrow>
                          (case run ca shared s2 of
                             None \<Rightarrow> None
                           | Some (Inl e, s3) \<Rightarrow> Some (Inl e, s3)
                           | Some (Inr act, s3) \<Rightarrow>
                               (case getNextNode a act s3 of
                                  (Inl e, s4) \<Rightarrow> Some (Inl e, s4)
                                | (Inr nxt, s4) \<Rightarrow>
                                    orchestrate_loop run k nxt shared p act s4))))
              | _ \<Rightarrow> Some (Inl not_a_node_error, s1))))"

text \<open>
  \<open>Flow._orchestrate(shared, params)\<close>; \<open>params\<close> is \<open>null\<close> when the caller passes
  none.
\<close>

definition Flow_orchestrate ::
  "'w runner \<Rightarrow> nat \<Rightarrow> addr \<Rightarrow> jsval \<Rightarrow> jsval \<Rightarrow> 'w state \<Rightarrow> (outcome \<times> 'w state) option" where
  "Flow_orchestrate run k this shared ps s0 =
     (let s = record_event (EvOrchestrate this ps) s0 in
      case node_at (heap s) this of
        None \<Rightarrow> Some (Inl no_this_error, s)
      | Some n \<Rightarrow>
          if \<not> truthy (startNode n) then Some (Inr JNull, warn ''Flow has no start node'' s)
          else
            (case (if truthy ps then (ps, s)
                   else new_object (spread_into [] (own_props (heap s) (params n))) s) of
               (p, s1) \<Rightarrow> orchestrate_loop run k (Val (startNode n)) shared p JNull s1))"

text \<open>\<open>Flow._run\<close>: \<open>prep\<close>, \<open>_orchestrate(shared)\<close>, \<open>post\<close>.\<close>

definition Flow_run ::
  "(nat \<Rightarrow> 'w hooks) \<Rightarrow> 'w runner \<Rightarrow> nat \<Rightarrow> node \<Rightarrow> addr \<Rightarrow> jsval \<Rightarrow> 'w state
     \<Rightarrow> (outcome \<times> 'w state) option" where
  "Flow_run H run k n this shared s =
     (case call_prep (H (impl n)) this shared s of
        (Inl e, s1) \<Rightarrow> Some (Inl e, s1)
      | (Inr p, s1) \<Rightarrow>
          (case Flow_orchestrate run k this shared JNull s1 of
             None \<Rightarrow> None
           | Some (Inl e, s2) \<Rightarrow> Some (Inl e, s2)
           | Some (Inr o1, s2) \<Rightarrow> Some (call_post (H (impl n)) this shared p o1 s2)))"

subsection \<open>BatchFlow\<close>

text \<open>
  The body of the loop, \<open>this._orchestrate(shared, { ...this.params, ...bp })\<close>: a new
  object receives the flow's parameters and then the entries of \<open>bp\<close>, and
  \<open>_orchestrate\<close> is entered with it.
\<close>

definition sub_run ::
  "'w runner \<Rightarrow> nat \<Rightarrow> addr \<Rightarrow> jsval \<Rightarrow> jsval \<Rightarrow> 'w state \<Rightarrow> (outcome \<times> 'w state) option" where
  "sub_run run k this shared bp s =
     (case new_object
             (spread_into (spread_into [] (own_props (heap s) (case node_at (heap s) this of
                                                                   Some n \<Rightarrow> params n
                                                                 | None \<Rightarrow> JUndefined)))
                (own_props (heap s) bp)) s of
        (p, s1) \<Rightarrow> Flow_orchestrate run k this shared p s1)"

text \<open>
  \<open>for (const bp of pr) this._orchestrate(\<dots>)\<close>: the returned action is dropped, a
  throw ends the loop.
\<close>

fun batch_loop ::
  "'w runner \<Rightarrow> nat \<Rightarrow> addr \<Rightarrow> jsval \<Rightarrow> jsval list \<Rightarrow> 'w state \<Rightarrow> (outcome \<times> 'w state) option" where
  "batch_loop run k this shared [] s = Some (Inr JUndefined, s)"
| "batch_loop run k this shared (bp # bps) s =
     (case sub_run run k this shared bp s of
        None \<Rightarrow> None
      | Some (Inl e, s2) \<Rightarrow> Some (Inl e, s2)
      | Some (Inr act, s2) \<Rightarrow> batch_loop run k this shared bps s2)"

definition BatchFlow_run ::
  "(nat \<Rightarrow> 'w hooks) \<Rightarrow> 'w runner \<Rightarrow> nat \<Rightarrow> node \<Rightarrow> addr \<Rightarrow> jsval \<Rightarrow> 'w state
     \<Rightarrow> (outcome \<times> 'w state) option" where
  "BatchFlow_run H run k n this shared s =
     (case call_prep (H (impl n)) this shared s of
        (Inl e, s1) \<Rightarrow> Some (Inl e, s1)
      | (Inr r, s1) \<Rightarrow>
          (let pr = (if truthy r then r else JArr []) in
           case pr of
             JArr bps \<Rightarrow>
               (case batch_loop run k this shared bps s1 of
                  None \<Rightarrow> None
                | Some (Inl e, s2) \<Rightarrow> Some (Inl e, s2)
                | Some (Inr u, s2) \<Rightarrow> Some (call_post (H (impl n)) this shared pr JNull s2))
           | _ \<Rightarrow>
               Some (call_post (H (impl n)) this shared pr JNull
                       (warn (''BatchFlow expected an array from prep() but received ''
                                @ typeof pr) s1))))"

subsection \<open>The synchronous entry points\<close>

text \<open>
  \<open>this._run(shared)\<close>, by the class of \<open>this\<close>. \<open>AsyncFlow\<close> defines no \<open>_run\<close> of
  its own, so \<open>applyMixins\<close> gives it the one of \<open>AsyncNode\<close>, and its subclasses
  inherit that. The fuel bounds the nesting of flows and the steps of each loop.
\<close>

definition run_step ::
  "(nat \<Rightarrow> 'w hooks) \<Rightarrow> nat \<Rightarrow> 'w runner \<Rightarrow> 'w runner" where
  "run_step H k run this shared s =
     (case node_at (heap s) this of
        None \<Rightarrow> Some (Inl no_this_error, s)
      | Some n \<Rightarrow>
          if cls n = Flow then Flow_run H run k n this shared s
          else if cls n = BatchFlow then BatchFlow_run H run k n this shared s
          else if is_async_node_class (cls n) \<or> is_async_flow_class (cls n)
          then Some (AsyncNode_run this shared s)
          else Some (BaseNode_run H n this shared s))"

primrec node_run :: "(nat \<Rightarrow> 'w hooks) \<Rightarrow> nat \<Rightarrow> 'w runner" where
  "node_run H 0 = (\<lambda>this shared s. None)"
| "node_run H (Suc k) = run_step H k (node_run H k)"

text \<open>\<open>BaseNode.run\<close>: warns when the node has successors, then \<open>_run\<close>.\<close>

definition run :: "(nat \<Rightarrow> 'w hooks) \<Rightarrow> nat \<Rightarrow> 'w runner" where
  "run H k this shared s =
     (case node_at (heap s) this of
        None \<Rightarrow> Some (Inl no_this_error, s)
      | Some n \<Rightarrow>
          (case succ_at (heap s) (successors n) of
             None \<Rightarrow> Some (Inl no_successors_error, s)
           | Some so \<Rightarrow>
               node_run H k this shared
                 (if length (object_keys (own so)) > 0
                  then warn ''Node won't run successors. Use Flow.'' s else s)))"

text \<open>\<open>flow._orchestrate(shared, params)\<close> on a flow, with \<open>_run\<close> for its nodes.\<close>

definition orchestrate ::
  "(nat \<Rightarrow> 'w hooks) \<Rightarrow> nat \<Rightarrow> addr \<Rightarrow> jsval \<Rightarrow> jsval \<Rightarrow> 'w state \<Rightarrow> (outcome \<times> 'w state) option" where
  "orchestrate H k this shared ps s = Flow_orchestrate (node_run H k) k this shared ps s"

section \<open>The asynchronous family\<close>


definition call_execAsync :: "'w hooks \<Rightarrow> addr \<Rightarrow> jsval \<Rightarrow> 'w state \<Rightarrow> outcome \<times> 'w state" where
  "call_execAsync hk this prepRes s =
     (case execAsync hk this (heap s) prepRes (world s) of
        (r, w') \<Rightarrow>
          (r, record_event (EvExecAsync this (curRetry_of (heap s) this) prepRes r)
                (s\<lparr>world := w'\<rparr>)))"

definition call_execFallbackAsync ::
  "'w hooks \<Rightarrow> addr \<Rightarrow> jsval \<Rightarrow> jsval \<Rightarrow> 'w state \<Rightarrow> outcome \<times> 'w state" where
  "call_execFallbackAsync hk this prepRes e s =
     (case execFallbackAsync hk this (heap s) prepRes e (world s) of
        (r, w') \<Rightarrow>
          (r, record_event (EvFallbackAsync this (curRetry_of (heap s) this) prepRes e r)
                (s\<lparr>world := w'\<rparr>)))"


text \<open>
  The loop of \<open>AsyncNode._exec\<close>: as the synchronous one, but between two attempts it
  awaits a timer of \<open>wait * 1000\<close> milliseconds.
\<close>

function async_retry_loop ::
  "'w hooks \<Rightarrow> addr \<Rightarrow> int \<Rightarrow> int \<Rightarrow> int \<Rightarrow> jsval \<Rightarrow> 'w state \<Rightarrow> outcome \<times> 'w state" where
  "async_retry_loop hk this mx wt i prepRes s =
     (if i < mx then
        (case call_execAsync hk this prepRes s of
           (Inr v, s1) \<Rightarrow> (Inr v, s1)
         | (Inl e, s1) \<Rightarrow>
             if i = mx - 1 then call_execFallbackAsync hk this prepRes e s1
             else
               async_retry_loop hk this mx wt (i + 1) prepRes
                 (set_curRetry this (i + 1)
                    (if wt > 0 then record_event (EvSleep this (wt * 1000)) s1 else s1)))
      else (Inr JUndefined, s))"
  by pat_completeness auto
termination
  by (relation "measure (\<lambda>(hk, this, mx, wt, i, prepRes, s). nat (mx - i))") auto

declare async_retry_loop.simps [simp del]

definition AsyncNode_exec ::
  "(nat \<Rightarrow> 'w hooks) \<Rightarrow> addr \<Rightarrow> jsval \<Rightarrow> 'w state \<Rightarrow> outcome \<times> 'w state" where
  "AsyncNode_exec H this prepRes s =
     (case node_at (heap s) this of
        None \<Rightarrow> (Inl no_this_error, s)
      | Some n \<Rightarrow>
          async_retry_loop (H (impl n)) this (maxRetries n) (wait n) 0 prepRes
            (set_curRetry this 0 s))"


subsection \<open>Calls that are pending together\<close>

text \<open>
  \<open>Promise.all(items.map(item => super._exec(item)))\<close> calls \<open>AsyncNode._exec\<close> for
  every item. Each call runs up to its first \<open>await\<close> and is suspended there; the
  suspended calls are then resumed one at a time, in an order the code does not fix. A
  suspended call waits for the promise of \<open>execAsync\<close>, for the promise of
  \<open>execFallbackAsync\<close>, or for the timer between two attempts. A lifecycle method acts
  when it is called; its outcome reaches the caller when the call is resumed. All the
  calls have the same \<open>this\<close>, so they read and write the same \<open>this.curRetry\<close>.
\<close>

datatype task =
    AwaitExec jsval outcome
  | AwaitFallback outcome
  | AwaitTimer jsval
  | Settled outcome

text \<open>
  The head of the loop of \<open>AsyncNode._exec\<close>: the test
  \<open>this.curRetry < this.maxRetries\<close> and, if it holds, the call of \<open>execAsync\<close>; if it
  fails the method falls off its end and its promise is fulfilled with \<open>undefined\<close>.
\<close>

definition attempt ::
  "(nat \<Rightarrow> 'w hooks) \<Rightarrow> addr \<Rightarrow> jsval \<Rightarrow> 'w state \<Rightarrow> task \<times> 'w state" where
  "attempt H this item s =
     (case node_at (heap s) this of
        None \<Rightarrow> (Settled (Inl no_this_error), s)
      | Some n \<Rightarrow>
          if curRetry n < maxRetries n then
            (case call_execAsync (H (impl n)) this item s of
               (r, s1) \<Rightarrow> (AwaitExec item r, s1))
          else (Settled (Inr JUndefined), s))"

text \<open>The call itself (\<open>this.curRetry = 0\<close>), and the step \<open>this.curRetry++\<close>.\<close>

definition task_start ::
  "(nat \<Rightarrow> 'w hooks) \<Rightarrow> addr \<Rightarrow> jsval \<Rightarrow> 'w state \<Rightarrow> task \<times> 'w state" where
  "task_start H this item s = attempt H this item (set_curRetry this 0 s)"

definition task_next ::
  "(nat \<Rightarrow> 'w hooks) \<Rightarrow> addr \<Rightarrow> jsval \<Rightarrow> 'w state \<Rightarrow> task \<times> 'w state" where
  "task_next H this item s =
     attempt H this item (set_curRetry this (curRetry_of (heap s) this + 1) s)"

text \<open>
  A suspended call is resumed and runs to its next \<open>await\<close> or to its end: a fulfilled
  \<open>execAsync\<close> is returned; a rejected one enters the \<open>catch\<close> block, which calls
  the fallback on the last attempt, and otherwise waits if \<open>this.wait > 0\<close> and goes on
  to the next attempt; the outcome of the fallback is the outcome of the call.
\<close>

fun resume ::
  "(nat \<Rightarrow> 'w hooks) \<Rightarrow> addr \<Rightarrow> task \<Rightarrow> 'w state \<Rightarrow> task \<times> 'w state" where
  "resume H this (AwaitExec item (Inr v)) s = (Settled (Inr v), s)"
| "resume H this (AwaitExec item (Inl e)) s =
     (case node_at (heap s) this of
        None \<Rightarrow> (Settled (Inl no_this_error), s)
      | Some n \<Rightarrow>
          if curRetry n = maxRetries n - 1 then
            (case call_execFallbackAsync (H (impl n)) this item e s of
               (r, s1) \<Rightarrow> (AwaitFallback r, s1))
          else if wait n > 0
          then (AwaitTimer item, record_event (EvSleep this (wait n * 1000)) s)
          else task_next H this item s)"
| "resume H this (AwaitTimer item) s = task_next H this item s"
| "resume H this (AwaitFallback r) s = (Settled r, s)"
| "resume H this (Settled r) s = (Settled r, s)"

text \<open>\<open>items.map(item => super._exec(item))\<close>: the calls are started from left to right.\<close>

fun start_all ::
  "(nat \<Rightarrow> 'w hooks) \<Rightarrow> addr \<Rightarrow> jsval list \<Rightarrow> 'w state \<Rightarrow> task list \<times> 'w state" where
  "start_all H this [] s = ([], s)"
| "start_all H this (x # xs) s =
     (case task_start H this x s of
        (t, s1) \<Rightarrow> (case start_all H this xs s1 of (ts, s2) \<Rightarrow> (t # ts, s2)))"

text \<open>
  The positions of the calls that are still suspended, and the choice of the one that
  is resumed next: the next entry of the schedule, counted among the suspended calls
  (the first of them once the schedule is used up).
\<close>

fun is_settled :: "task \<Rightarrow> bool" where
  "is_settled (Settled r) = True"
| "is_settled t = False"

fun pending_from :: "nat \<Rightarrow> task list \<Rightarrow> nat list" where
  "pending_from i [] = []"
| "pending_from i (t # ts) =
     (if is_settled t then pending_from (Suc i) ts else i # pending_from (Suc i) ts)"

definition pending :: "task list \<Rightarrow> nat list" where
  "pending ts = pending_from 0 ts"

definition next_choice :: "'w state \<Rightarrow> nat \<times> 'w state" where
  "next_choice s = (case schedule s of [] \<Rightarrow> (0, s) | c # cs \<Rightarrow> (c, s\<lparr>schedule := cs\<rparr>))"

definition pick :: "nat list \<Rightarrow> nat \<Rightarrow> nat" where
  "pick ps c = ps ! (c mod length ps)"

text \<open>
  \<open>Promise.all\<close> rejects with the error of the call that is rejected first in time,
  and is fulfilled with the values of all calls, in the order of the items, when every
  call is fulfilled.
\<close>

fun rejection_of :: "task \<Rightarrow> jsval option" where
  "rejection_of (Settled (Inl e)) = Some e"
| "rejection_of t = None"

definition note_rejection :: "jsval option \<Rightarrow> task \<Rightarrow> jsval option" where
  "note_rejection rej t = (case rej of Some e \<Rightarrow> Some e | None \<Rightarrow> rejection_of t)"

fun task_value :: "task \<Rightarrow> jsval" where
  "task_value (Settled (Inr v)) = v"
| "task_value t = JUndefined"

text \<open>
  The suspended calls are resumed until none is left. A rejection does not cancel the
  other calls: they go on to their end, so the state that is returned holds everything
  the batch has done. \<open>rej\<close> is the first rejection so far.
\<close>

function settle_all ::
  "(nat \<Rightarrow> 'w hooks) \<Rightarrow> addr \<Rightarrow> task list \<Rightarrow> jsval option \<Rightarrow> 'w state
     \<Rightarrow> jsval option \<times> task list \<times> 'w state" where
  "settle_all H this ts rej s =
     (if pending ts = [] then (rej, ts, s)
      else
        (case next_choice s of
           (c, s1) \<Rightarrow>
             (case resume H this (ts ! pick (pending ts) c) s1 of
                (t, s2) \<Rightarrow>
                  settle_all H this (ts[pick (pending ts) c := t]) (note_rejection rej t) s2)))"
  by pat_completeness auto

text \<open>
  What is left to do: a weight for each call by the point where it is suspended, and
  the attempts that \<open>this.curRetry\<close> still allows. Every resumption lowers their
  sum, which is why \<open>settle_all\<close> comes to an end under every schedule.
\<close>

fun task_weight :: "task \<Rightarrow> nat" where
  "task_weight (AwaitExec item r) = 3"
| "task_weight (AwaitTimer item) = 2"
| "task_weight (AwaitFallback r) = 1"
| "task_weight (Settled r) = 0"

definition attempts_left :: "store \<Rightarrow> addr \<Rightarrow> nat" where
  "attempts_left h this =
     (case node_at h this of None \<Rightarrow> 0 | Some n \<Rightarrow> nat (maxRetries n - curRetry n))"

definition work_left :: "addr \<Rightarrow> task list \<Rightarrow> 'w state \<Rightarrow> nat" where
  "work_left this ts s = sum_list (map task_weight ts) + 2 * attempts_left (heap s) this"

text \<open>\<open>await Promise.all(items.map(item => super._exec(item)))\<close>.\<close>

definition parallel_exec ::
  "(nat \<Rightarrow> 'w hooks) \<Rightarrow> addr \<Rightarrow> jsval list \<Rightarrow> 'w state \<Rightarrow> outcome \<times> 'w state" where
  "parallel_exec H this xs s =
     (case start_all H this xs s of
        (ts, s1) \<Rightarrow>
          (case settle_all H this ts (foldl note_rejection None ts) s1 of
             (rej, ts', s2) \<Rightarrow>
               (case rej of
                  Some e \<Rightarrow> (Inl e, s2)
                | None \<Rightarrow> (Inr (JArr (map task_value ts')), s2))))"







section \<open>Well-formed nodes and a small example graph\<close>

text \<open>
  A node as the constructors and \<open>next\<close> leave it: a node object whose \<open>successors\<close>
  field holds a successor table without an own property named \<open>__proto__\<close>.
\<close>

definition node_ok :: "store \<Rightarrow> addr \<Rightarrow> bool" where
  "node_ok h a =
     (case node_at h a of
        None \<Rightarrow> False
      | Some n \<Rightarrow> (case succ_at h (successors n) of
                     None \<Rightarrow> False
                   | Some so \<Rightarrow> map_of (own so) ''__proto__'' = None))"

text \<open>The address of the successor table of the node at \<open>a\<close>.\<close>

definition table_of :: "store \<Rightarrow> addr \<Rightarrow> addr option" where
  "table_of h a = (case node_at h a of Some n \<Rightarrow> Some (successors n) | None \<Rightarrow> None)"

text \<open>
  Three nodes A, B, C at addresses 0, 3 and 6, each followed by its successor table and
  its parameter object, as the constructor makes them; A has the successor B registered
  under \<open>go\<close>.
\<close>

definition example_node :: "node_class \<Rightarrow> addr \<Rightarrow> node" where
  "example_node c t =
     \<lparr> cls = c, impl = 0, params = JRef (t + 1), successors = t, maxRetries = 1, wait = 0,
       curRetry = 0, startNode = JNull, batchImpl = JNull \<rparr>"

definition example_store :: store where
  "example_store =
     [ONode (example_node BaseNode 1), OSucc \<lparr> own = [(''go'', JRef 3)], sproto = None \<rparr>,
      OData [],
      ONode (example_node BaseNode 4), OSucc \<lparr> own = [], sproto = None \<rparr>, OData [],
      ONode (example_node BaseNode 7), OSucc \<lparr> own = [], sproto = None \<rparr>, OData []]"

definition example_state :: "unit state" where
  "example_state = initial_state example_store ()"

section \<open>Describing traces and configurations\<close>

text \<open>
  The trace a run of attempts leaves: one \<open>EvExec\<close> per attempt, numbered upwards from
  \<open>i\<close>, each with the outcome of that attempt.
\<close>

fun exec_events :: "addr \<Rightarrow> jsval \<Rightarrow> int \<Rightarrow> outcome list \<Rightarrow> event list" where
  "exec_events a p i [] = []"
| "exec_events a p i (r # rs) = EvExec a i p r # exec_events a p (i + 1) rs"

fun is_exec_event :: "event \<Rightarrow> bool" where
  "is_exec_event (EvExec a i p r) = True"
| "is_exec_event ev = False"

fun is_fallback_event :: "event \<Rightarrow> bool" where
  "is_fallback_event (EvFallback a i p e r) = True"
| "is_fallback_event ev = False"

text \<open>The same state with \<open>this.wait\<close> of the node at \<open>a\<close> set to \<open>v\<close>.\<close>

definition with_wait :: "addr \<Rightarrow> int \<Rightarrow> 'w state \<Rightarrow> 'w state" where
  "with_wait a v s = s\<lparr>heap := update_node a (\<lambda>n. n\<lparr>wait := v\<rparr>) (heap s)\<rparr>"

text \<open>
  The execute phase and the fallback of a subclass do not read \<open>this.wait\<close>: their
  behaviour on a store does not change when only that field is changed.
\<close>

definition ignores_wait :: "'w hooks \<Rightarrow> addr \<Rightarrow> bool" where
  "ignores_wait hk a =
     (\<forall>h p e w v.
        exec hk a (update_node a (\<lambda>n. n\<lparr>wait := v\<rparr>) h) p w = exec hk a h p w
        \<and> execFallback hk a (update_node a (\<lambda>n. n\<lparr>wait := v\<rparr>) h) p e w
            = execFallback hk a h p e w)"

text \<open>
  Two states that agree on the world and the trace, and on the store up to
  \<open>this.wait\<close> of the node at \<open>a\<close>.
\<close>

definition same_but_wait :: "addr \<Rightarrow> 'w state \<Rightarrow> 'w state \<Rightarrow> bool" where
  "same_but_wait a s1 s2 =
     (world s1 = world s2 \<and> trace s1 = trace s2
      \<and> update_node a (\<lambda>n. n\<lparr>wait := 0\<rparr>) (heap s1)
          = update_node a (\<lambda>n. n\<lparr>wait := 0\<rparr>) (heap s2))"

section \<open>Example configurations\<close>

text \<open>
  A subclass whose \<open>exec\<close> throws on the first two attempts and returns on the third,
  a subclass whose \<open>exec\<close> returns its argument, and one whose \<open>exec\<close> always throws.
\<close>

definition flaky_hooks :: "unit hooks" where
  "flaky_hooks = default_hooks
     \<lparr> exec := (\<lambda>this h prepRes w.
                  if curRetry_of h this < 2 then (Inl (JStr ''boom''), w)
                  else (Inr (JStr ''ok''), w)) \<rparr>"

definition echo_hooks :: "unit hooks" where
  "echo_hooks = default_hooks \<lparr> exec := (\<lambda>this h prepRes w. (Inr prepRes, w)) \<rparr>"

definition failing_hooks :: "unit hooks" where
  "failing_hooks = default_hooks \<lparr> exec := (\<lambda>this h prepRes w. (Inl (JStr ''boom''), w)) \<rparr>"

text \<open>A \<open>Node\<close> with three attempts and a wait of two seconds, alone in the store with
  its table and its parameter object.\<close>

definition retry_node :: node where
  "retry_node = (example_node Node 1) \<lparr> maxRetries := 3, wait := 2 \<rparr>"

definition retry_state :: "unit state" where
  "retry_state =
     initial_state [ONode retry_node, OSucc \<lparr> own = [], sproto = None \<rparr>, OData []] ()"

text \<open>A \<open>BatchNode\<close> with two attempts, and an \<open>AsyncNode\<close>, each alone in the store.\<close>

definition batch_state :: "unit state" where
  "batch_state =
     initial_state [ONode ((example_node BatchNode 1) \<lparr> maxRetries := 2 \<rparr>),
                    OSucc \<lparr> own = [], sproto = None \<rparr>, OData []] ()"

definition async_state :: "unit state" where
  "async_state =
     initial_state [ONode (example_node AsyncNode 1),
                    OSucc \<lparr> own = [(''default'', JRef 0)], sproto = None \<rparr>, OData []] ()"


section \<open>Describing what a run may touch\<close>

text \<open>The receiver of a recorded call.\<close>

fun event_this :: "event \<Rightarrow> addr" where
  "event_this (EvPrep a sh r) = a"
| "event_this (EvExec a i p r) = a"
| "event_this (EvFallback a i p e r) = a"
| "event_this (EvPost a sh p e r) = a"
| "event_this (EvOrchestrate a ps) = a"
| "event_this (EvPrepAsync a sh r) = a"
| "event_this (EvExecAsync a i p r) = a"
| "event_this (EvFallbackAsync a i p e r) = a"
| "event_this (EvPostAsync a sh p e r) = a"
| "event_this (EvOrchestrateAsync a ps) = a"
| "event_this (EvSleep a ms) = a"

text \<open>
  From \<open>s\<close> to \<open>s'\<close> the store has only grown, the objects below address \<open>N\<close> are
  what they were, and every call recorded in between has a receiver at \<open>N\<close> or above.
\<close>

definition frame :: "nat \<Rightarrow> 'w state \<Rightarrow> 'w state \<Rightarrow> bool" where
  "frame N s s' =
     (length (heap s) \<le> length (heap s') \<and> take N (heap s') = take N (heap s)
      \<and> (\<exists>es. trace s' = trace s @ es \<and> list_all (\<lambda>ev. N \<le> event_this ev) es))"

text \<open>A runner that, called on a receiver at \<open>N\<close> or above, stays within that frame.\<close>

definition runner_ok :: "'w runner \<Rightarrow> bool" where
  "runner_ok rn =
     (\<forall>N this shared s r s'.
        rn this shared s = Some (r, s') \<and> N \<le> this \<and> N \<le> length (heap s) \<longrightarrow> frame N s s')"

text \<open>A reference, if the value is one, points into the store.\<close>

definition ref_ok :: "store \<Rightarrow> jsval \<Rightarrow> bool" where
  "ref_ok h v = (case v of JRef a \<Rightarrow> a < length h | _ \<Rightarrow> True)"

text \<open>Entries into \<open>_orchestrate\<close> and calls of \<open>post\<close> with the receiver \<open>f\<close>.\<close>

fun orchestrate_of :: "addr \<Rightarrow> event \<Rightarrow> bool" where
  "orchestrate_of f (EvOrchestrate a ps) = (a = f)"
| "orchestrate_of f ev = False"

fun post_of :: "addr \<Rightarrow> event \<Rightarrow> bool" where
  "post_of f (EvPost a sh p e r) = (a = f)"
| "post_of f ev = False"

text \<open>
  A flow F at address 6 that starts at node A (address 0), whose \<open>default\<close> successor
  is the retrying node B (address 3); every node has a table and a parameter object of
  its own. The data objects at 9 and 10 are two parameter sets for a batch.
\<close>

definition flow_store :: "node_class \<Rightarrow> store" where
  "flow_store c =
     [ONode (example_node BaseNode 1),
      OSucc \<lparr> own = [(''default'', JRef 3)], sproto = None \<rparr>,
      OData [],
      ONode (example_node Node 4),
      OSucc \<lparr> own = [], sproto = None \<rparr>,
      OData [],
      ONode ((example_node c 7) \<lparr> impl := 1, startNode := JRef 0 \<rparr>),
      OSucc \<lparr> own = [], sproto = None \<rparr>,
      OData [(''user'', JStr ''ann'')],
      OData [(''id'', JNum 1)],
      OData [(''id'', JNum 2), (''user'', JStr ''bob'')]]"

definition flow_state :: "node_class \<Rightarrow> unit state" where
  "flow_state c = initial_state (flow_store c) ()"

text \<open>
  The nodes echo their input and the flow keeps the defaults; in the batch variants
  the flow's \<open>prep\<close> returns the two parameter sets, and in \<open>failing_batch_hooks\<close> the
  nodes' \<open>exec\<close> always throws.
\<close>

definition flow_hooks :: "nat \<Rightarrow> unit hooks" where
  "flow_hooks i = (if i = 0 then echo_hooks else default_hooks)"

definition batch_prep_hooks :: "unit hooks" where
  "batch_prep_hooks =
     default_hooks \<lparr> prep := (\<lambda>this h shared w. (Inr (JArr [JRef 9, JRef 10]), w)) \<rparr>"

definition batch_hooks :: "nat \<Rightarrow> unit hooks" where
  "batch_hooks i = (if i = 0 then echo_hooks else batch_prep_hooks)"

definition failing_batch_hooks :: "nat \<Rightarrow> unit hooks" where
  "failing_batch_hooks i = (if i = 0 then failing_hooks else batch_prep_hooks)"

text \<open>
  \<open>o[k] = v\<close> on the data object at \<open>a\<close> (for a key other than \<open>__proto__\<close>): what
  user code does when it changes an entry of a parameter object.
\<close>

definition data_assign :: "addr \<Rightarrow> string \<Rightarrow> jsval \<Rightarrow> 'w state \<Rightarrow> 'w state" where
  "data_assign a k v s =
     (case data_at (heap s) a of
        Some kvs \<Rightarrow> s\<lparr>heap := (heap s)[a := OData (assign k v kvs)]\<rparr>
      | None \<Rightarrow> s)"


definition batch_final :: "unit state" where
  "batch_final = (flow_state BatchFlow)
     \<lparr> heap := flow_store BatchFlow @
         [OData [(''user'', JStr ''ann''), (''id'', JNum 1)],
          ONode ((example_node BaseNode 1) \<lparr> params := JRef 11 \<rparr>),
          ONode ((example_node Node 4) \<lparr> params := JRef 11 \<rparr>),
          OData [(''user'', JStr ''bob''), (''id'', JNum 2)],
          ONode ((example_node BaseNode 1) \<lparr> params := JRef 14 \<rparr>),
          ONode ((example_node Node 4) \<lparr> params := JRef 14 \<rparr>)],
       trace := [EvPrep 6 JNull (Inr (JArr [JRef 9, JRef 10])),
                 EvOrchestrate 6 (JRef 11),
                 EvPrep 12 JNull (Inr JNull), EvExec 12 0 JNull (Inr JNull),
                 EvPost 12 JNull JNull JNull (Inr JNull),
                 EvPrep 13 JNull (Inr JNull), EvExec 13 0 JNull (Inr JNull),
                 EvPost 13 JNull JNull JNull (Inr JNull),
                 EvOrchestrate 6 (JRef 14),
                 EvPrep 15 JNull (Inr JNull), EvExec 15 0 JNull (Inr JNull),
                 EvPost 15 JNull JNull JNull (Inr JNull),
                 EvPrep 16 JNull (Inr JNull), EvExec 16 0 JNull (Inr JNull),
                 EvPost 16 JNull JNull JNull (Inr JNull),
                 EvPost 6 JNull (JArr [JRef 9, JRef 10]) JNull (Inr JNull)] \<rparr>"

definition failed_final :: "unit state" where
  "failed_final = (flow_state BatchFlow)
     \<lparr> heap := flow_store BatchFlow @
         [OData [(''user'', JStr ''ann''), (''id'', JNum 1)],
          ONode ((example_node BaseNode 1) \<lparr> params := JRef 11 \<rparr>)],
       trace := [EvPrep 6 JNull (Inr (JArr [JRef 9, JRef 10])),
                 EvOrchestrate 6 (JRef 11),
                 EvPrep 12 JNull (Inr JNull), EvExec 12 0 JNull (Inl (JStr ''boom''))] \<rparr>"




text \<open>
  The scenario of the specification: node A (address 0) has the successors
  \<open>{go: B, default: C}\<close> (B at 3, C at 6) and its \<open>post\<close> returns a fixed label;
  the flow at 9 starts at A.
\<close>

definition scenario_state :: "unit state" where
  "scenario_state =
     initial_state
       [ONode (example_node BaseNode 1),
        OSucc \<lparr> own = [(''go'', JRef 3), (''default'', JRef 6)], sproto = None \<rparr>,
        OData [],
        ONode ((example_node BaseNode 4) \<lparr> impl := 1 \<rparr>),
        OSucc \<lparr> own = [], sproto = None \<rparr>,
        OData [],
        ONode ((example_node BaseNode 7) \<lparr> impl := 1 \<rparr>),
        OSucc \<lparr> own = [], sproto = None \<rparr>,
        OData [],
        ONode ((example_node Flow 10) \<lparr> impl := 1, startNode := JRef 0 \<rparr>),
        OSucc \<lparr> own = [], sproto = None \<rparr>,
        OData []] ()"

definition label_hooks :: "string \<Rightarrow> nat \<Rightarrow> unit hooks" where
  "label_hooks l i =
     (if i = 0
      then default_hooks \<lparr> post := (\<lambda>this h shared prepRes execRes w. (Inr (JStr l), w)) \<rparr>
      else default_hooks)"

section \<open>Properties\<close>

subsection \<open>The warning channel\<close>

text \<open>
  C9, as the specification states it, says that a warning emitted after
  \<open>clearWarningHandlers\<close> is written to the standard error stream. It is not: with the
  handler list emptied, \<open>warn\<close> calls no handler at all.
\<close>

theorem warn_after_clear_counterexample:
  "stderr_lines (warn ''Flow has no start node'' (clearHandlers (initial_state [] ()))) = []"
  by (simp add: stderr_lines_def warn_def clearHandlers_def initial_state_def)

text \<open>
  C9 (amended): after \<open>clearHandlers\<close> a warning is delivered to no handler and the
  standard error stream is left as it was; it is the handler list the module starts with,
  \<open>[console.warn]\<close>, that writes a warning to standard error.
\<close>

theorem warn_after_clear:
  "delivered (warn m (clearHandlers s)) = delivered s
   \<and> stderr_lines (warn m (clearHandlers s)) = stderr_lines s
   \<and> stderr_lines (warn m (initial_state h w)) = [m]"
  by (simp add: stderr_lines_def warn_def clearHandlers_def initial_state_def
      initial_handlers_def)

subsection \<open>Registering successors\<close>

lemma map_of_assign: "map_of (assign k v kvs) k = Some v"
  by (induction kvs) auto

lemma map_of_assign_other: "k' \<noteq> k \<Longrightarrow> map_of (assign k v kvs) k' = map_of kvs k'"
  by (induction kvs) auto

lemma succ_get_set:
  "map_of (own so) ''__proto__'' = None \<Longrightarrow> succ_get h (succ_set so k b) k = Val (JRef b)"
  by (auto simp: succ_get_def succ_set_def map_of_assign)

lemma succ_set_no_proto:
  "map_of (own so) ''__proto__'' = None \<Longrightarrow> map_of (own (succ_set so k b)) ''__proto__'' = None"
  by (auto simp: succ_set_def map_of_assign_other)

lemma node_next_ok:
  assumes "node_at (heap s) a = Some n" "succ_at (heap s) (successors n) = Some so"
     "node_at (heap s) b = Some nb"
  shows "fst (node_next a (JRef b) (JStr k) s) = Inr (JRef b)"
   and "heap (snd (node_next a (JRef b) (JStr k) s)) = (heap s)[successors n := OSucc (succ_set so k b)]"
  using assms
  by (simp_all add: node_next_def instanceof_BaseNode_def Let_def warn_def)

lemma node_at_upd_table:
  assumes "succ_at h t = Some so"
  shows "node_at (h[t := OSucc so']) x = node_at h x"
  using assms
  by (auto simp: node_at_def succ_at_def obj_at_def nth_list_update split: option.splits obj.splits if_splits)

lemma succ_at_upd_table:
  assumes "succ_at h t = Some so"
  shows "succ_at (h[t := OSucc so']) x = (if x = t then Some so' else succ_at h x)"
  using assms
  by (auto simp: succ_at_def obj_at_def nth_list_update split: option.splits obj.splits if_splits)

lemma node_next_successor:
  assumes "node_at (heap s) a = Some n" "succ_at (heap s) (successors n) = Some so"
     "map_of (own so) ''__proto__'' = None" "node_at (heap s) b = Some nb"
  shows "successor_of (heap (snd (node_next a (JRef b) (JStr k) s))) a k = Some (Val (JRef b))"
  using assms
  by (simp add: node_next_ok successor_of_def node_at_upd_table succ_at_upd_table succ_get_set)

lemma node_next_node_ok:
  assumes "node_at (heap s) a = Some n" "succ_at (heap s) (successors n) = Some so"
     "map_of (own so) ''__proto__'' = None" "node_at (heap s) b = Some nb" "node_ok (heap s) x"
  shows "node_ok (heap (snd (node_next a (JRef b) (JStr k) s))) x"
  using assms
  by (auto simp add: node_next_ok node_ok_def node_at_upd_table succ_at_upd_table succ_set_no_proto split: option.splits)

lemma node_next_other_table:
  assumes "node_at (heap s) a = Some n" "succ_at (heap s) (successors n) = Some so"
     "node_at (heap s) b = Some nb" "node_at (heap s) x = Some nx" "successors nx \<noteq> successors n"
     "succ_at (heap s) (successors nx) = Some sx" "map_of (own sx) k' = Some v"
  shows "successor_of (heap (snd (node_next a (JRef b) (JStr k) s))) x k' = Some (Val v)"
  using assms
  by (simp add: node_next_ok successor_of_def node_at_upd_table succ_at_upd_table succ_get_def)


lemma connect_eq: "connect a v s = node_next a v (JStr ''default'') s"
  by (simp add: connect_def node_next_def)

text \<open>
  C10: \<open>a.next(b, k)\<close> returns \<open>b\<close> and afterwards \<open>a.successors[k]\<close> is \<open>b\<close>; so do
  \<open>a.connect(b)\<close> (under \<open>default\<close>) and \<open>a.withTransition(k).connect(b)\<close>, which is
  the same call of \<open>next\<close>. In the chain \<open>a.connect(b).connect(c)\<close> the second call has
  the returned \<open>b\<close> as its receiver: \<open>c\<close> becomes the \<open>default\<close> successor of \<open>b\<close>,
  and \<open>a\<close> (a node with a table of its own) keeps \<open>b\<close>.
\<close>

theorem next_returns_successor:
  assumes "node_ok (heap s) a" and "node_ok (heap s) b" and "node_ok (heap s) c"
  shows "fst (node_next a (JRef b) (JStr k) s) = Inr (JRef b)
    \<and> successor_of (heap (snd (node_next a (JRef b) (JStr k) s))) a k = Some (Val (JRef b))
    \<and> fst (connect a (JRef b) s) = Inr (JRef b)
    \<and> successor_of (heap (snd (connect a (JRef b) s))) a ''default'' = Some (Val (JRef b))
    \<and> (\<exists>t. withTransition a (JStr k) = Inr t
          \<and> transition_connect t (JRef b) s = node_next a (JRef b) (JStr k) s)
    \<and> (\<exists>r. fst (connect a (JRef b) s) = Inr (JRef r)
          \<and> fst (connect r (JRef c) (snd (connect a (JRef b) s))) = Inr (JRef c)
          \<and> successor_of (heap (snd (connect r (JRef c) (snd (connect a (JRef b) s))))) b
                ''default'' = Some (Val (JRef c))
          \<and> (table_of (heap s) a \<noteq> table_of (heap s) b \<longrightarrow>
               successor_of (heap (snd (connect r (JRef c) (snd (connect a (JRef b) s))))) a
                 ''default'' = Some (Val (JRef b))))"
proof -
  from assms(1) obtain n so where
    n: "node_at (heap s) a = Some n" and so: "succ_at (heap s) (successors n) = Some so"
    and np: "map_of (own so) ''__proto__'' = None"
    by (auto simp: node_ok_def split: option.splits)
  from assms(2) obtain nb sb where
    nb: "node_at (heap s) b = Some nb" and sb: "succ_at (heap s) (successors nb) = Some sb"
    and npb: "map_of (own sb) ''__proto__'' = None"
    by (auto simp: node_ok_def split: option.splits)
  from assms(3) obtain nc where nc: "node_at (heap s) c = Some nc"
    by (auto simp: node_ok_def split: option.splits)
  let ?s1 = "snd (node_next a (JRef b) (JStr ''default'') s)"
  have h1: "heap ?s1 = (heap s)[successors n := OSucc (succ_set so ''default'' b)]"
    by (rule node_next_ok(2)[OF n so nb])
  have n1: "node_at (heap ?s1) a = Some n" "node_at (heap ?s1) b = Some nb"
    "node_at (heap ?s1) c = Some nc"
    using n nb nc so by (simp_all add: h1 node_at_upd_table)
  have okb: "node_ok (heap ?s1) b"
    by (rule node_next_node_ok[OF n so np nb assms(2)])
  then obtain sb1 where sb1: "succ_at (heap ?s1) (successors nb) = Some sb1"
    and npb1: "map_of (own sb1) ''__proto__'' = None"
    using n1(2) by (auto simp: node_ok_def split: option.splits)
  have first: "fst (node_next a (JRef b) (JStr k) s) = Inr (JRef b)"
    "successor_of (heap (snd (node_next a (JRef b) (JStr k) s))) a k = Some (Val (JRef b))" for k
    using node_next_ok(1)[OF n so nb] node_next_successor[OF n so np nb] by simp_all
  have second: "fst (node_next b (JRef c) (JStr ''default'') ?s1) = Inr (JRef c)"
    "successor_of (heap (snd (node_next b (JRef c) (JStr ''default'') ?s1))) b ''default''
       = Some (Val (JRef c))"
    using node_next_ok(1)[OF n1(2) sb1 n1(3)] node_next_successor[OF n1(2) sb1 npb1 n1(3)]
    by simp_all
  have third: "successor_of (heap (snd (node_next b (JRef c) (JStr ''default'') ?s1))) a
       ''default'' = Some (Val (JRef b))" if "table_of (heap s) a \<noteq> table_of (heap s) b"
  proof -
    from that have d: "successors n \<noteq> successors nb"
      by (simp add: table_of_def n nb)
    have sa1: "succ_at (heap ?s1) (successors n) = Some (succ_set so ''default'' b)"
      using so by (simp add: h1 succ_at_upd_table)
    have m: "map_of (own (succ_set so ''default'' b)) ''default'' = Some (JRef b)"
      by (simp add: succ_set_def map_of_assign)
    show ?thesis
      by (rule node_next_other_table[OF n1(2) sb1 n1(3) n1(1) d sa1 m])
  qed
  show ?thesis
    using first second third
    by (simp add: connect_eq withTransition_def transition_connect_def)
qed

lemma example_nodes_ok:
  "node_ok (heap example_state) 0" "node_ok (heap example_state) 3"
  "node_ok (heap example_state) 6"
  by (simp_all add: example_state_def initial_state_def example_store_def node_ok_def
      node_at_def succ_at_def obj_at_def example_node_def)

theorem next_returns_successor_witness:
  "node_ok (heap example_state) 0 \<and> node_ok (heap example_state) 3
   \<and> node_ok (heap example_state) 6
   \<and> fst (node_next 0 (JRef 3) (JStr ''again'') example_state) = Inr (JRef 3)
   \<and> successor_of (heap (snd (node_next 0 (JRef 3) (JStr ''again'') example_state))) 0 ''again''
        = Some (Val (JRef 3))
   \<and> fst (connect 0 (JRef 3) example_state) = Inr (JRef 3)"
  using next_returns_successor[OF example_nodes_ok, of "''again''"] example_nodes_ok
  by simp

subsection \<open>Successor lookup\<close>

text \<open>
  C2 at a label that names a member of \<open>Object.prototype\<close>: node A has the one
  successor \<open>go\<close>, the label \<open>toString\<close> is not among its keys, and yet the lookup
  \<open>curr.successors[nextAction]\<close> finds the inherited function, so that no warning is
  emitted and a value that is no node is returned.
\<close>

theorem getNextNode_inherited_label:
  "getNextNode 0 (JStr ''toString'') example_state = (Inr (NativeFun ''toString''), example_state)"
  by (simp add: getNextNode_def example_state_def initial_state_def example_store_def
      node_at_def succ_at_def obj_at_def example_node_def succ_get_def object_proto_member_def
      object_prototype_names_def)

lemma length_object_keys: "length (object_keys kvs) = length kvs"
proof -
  have "length (filter (\<lambda>k. array_index k \<noteq> None) (map fst kvs))
        + length (filter (\<lambda>k. array_index k = None) (map fst kvs)) = length (map fst kvs)"
    using sum_length_filter_compl[of "\<lambda>k. array_index k \<noteq> None" "map fst kvs"] by simp
  then show ?thesis by (simp add: object_keys_def Let_def)
qed

lemma succ_get_absent:
  assumes "map_of (own so) l = None" and "sproto so = None"
    and "l \<notin> set (''__proto__'' # object_prototype_names)"
  shows "succ_get h so l = Val JUndefined"
  using assms by (simp add: succ_get_def object_proto_member_def)

text \<open>
  Successor lookup at every other label (a table with the ordinary prototype, a label that
  names no member of \<open>Object.prototype\<close>): a falsy action is looked up as \<open>default\<close>;
  a registered label gives its node and no warning; an unregistered label in a table that
  has keys gives \<open>undefined\<close> and exactly one warning, which names the label and the
  keys; in an empty table it gives \<open>undefined\<close> and no warning.
\<close>

theorem getNextNode_own_labels:
  assumes "node_at (heap s) a = Some n" and "succ_at (heap s) (successors n) = Some so"
    and "sproto so = None"
    and "l = to_string (if truthy act then act else JStr ''default'')"
    and "l \<notin> set (''__proto__'' # object_prototype_names)"
  shows "(\<not> truthy act \<longrightarrow> l = ''default'')
    \<and> (\<forall>v. map_of (own so) l = Some v \<and> truthy v \<longrightarrow> getNextNode a act s = (Inr (Val v), s))
    \<and> (map_of (own so) l = None \<and> own so \<noteq> [] \<longrightarrow>
          getNextNode a act s =
            (Inr (Val JUndefined), warn (flow_ends_message l (object_keys (own so))) s)
          \<and> delivered (snd (getNextNode a act s)) =
              delivered s @ map (\<lambda>h. (h, flow_ends_message l (object_keys (own so)))) (handlers s))
    \<and> (own so = [] \<longrightarrow> getNextNode a act s = (Inr (Val JUndefined), s))"
proof (intro conjI allI impI)
  show "l = ''default''" if "\<not> truthy act"
    using that assms(4) by simp
  show "getNextNode a act s = (Inr (Val v), s)" if "map_of (own so) l = Some v \<and> truthy v" for v
    using that assms(1,2,4) by (simp add: getNextNode_def Let_def succ_get_def)
  assume ab: "map_of (own so) l = None \<and> own so \<noteq> []"
  then have u: "succ_get (heap s) so l = Val JUndefined"
    using succ_get_absent[OF _ assms(3,5)] by simp
  show g: "getNextNode a act s =
            (Inr (Val JUndefined), warn (flow_ends_message l (object_keys (own so))) s)"
    using ab u assms(1,2,4) by (simp add: getNextNode_def Let_def length_object_keys)
  show "delivered (snd (getNextNode a act s)) =
              delivered s @ map (\<lambda>h. (h, flow_ends_message l (object_keys (own so)))) (handlers s)"
    by (simp add: g warn_def)
next
  assume e: "own so = []"
  then have "succ_get (heap s) so l = Val JUndefined"
    using succ_get_absent[OF _ assms(3,5)] by simp
  then show "getNextNode a act s = (Inr (Val JUndefined), s)"
    using e assms(1,2,4) by (simp add: getNextNode_def Let_def length_object_keys)
qed

lemma scenario_defs_node:
  "node_at (heap scenario_state) 0 = Some (example_node BaseNode 1)"
  "succ_at (heap scenario_state) (successors (example_node BaseNode 1))
     = Some \<lparr> own = [(''go'', JRef 3), (''default'', JRef 6)], sproto = None \<rparr>"
  "sproto \<lparr> own = [(''go'', JRef 3), (''default'', JRef 6)], sproto = None \<rparr> = None"
  "''default'' = to_string (if truthy (JStr []) then JStr [] else JStr ''default'')"
  "''default'' \<notin> set (''__proto__'' # object_prototype_names)"
  by (simp_all add: scenario_state_def initial_state_def node_at_def succ_at_def obj_at_def
      example_node_def object_prototype_names_def)

theorem getNextNode_own_labels_witness:
  "node_at (heap scenario_state) 0 = Some (example_node BaseNode 1)
   \<and> ''default'' \<notin> set (''__proto__'' # object_prototype_names)
   \<and> getNextNode 0 (JStr []) scenario_state = (Inr (Val (JRef 6)), scenario_state)"
  using getNextNode_own_labels[OF scenario_defs_node] scenario_defs_node(1,5)
  by simp

subsection \<open>State bookkeeping\<close>

lemma warn_fields [simp]:
  "heap (warn m s) = heap s" "world (warn m s) = world s" "trace (warn m s) = trace s"
  "timers (warn m s) = timers s" "handlers (warn m s) = handlers s"
  by (simp_all add: warn_def)

lemma schedule_noop_fields [simp]:
  "heap (schedule_noop ms s) = heap s" "world (schedule_noop ms s) = world s"
  "trace (schedule_noop ms s) = trace s" "delivered (schedule_noop ms s) = delivered s"
  "handlers (schedule_noop ms s) = handlers s"
  by (simp_all add: schedule_noop_def)

lemma set_curRetry_fields [simp]:
  "world (set_curRetry a i s) = world s" "trace (set_curRetry a i s) = trace s"
  "timers (set_curRetry a i s) = timers s" "delivered (set_curRetry a i s) = delivered s"
  "handlers (set_curRetry a i s) = handlers s"
  by (simp_all add: set_curRetry_def)

lemma node_at_update_node:
  "node_at (update_node a f h) x =
     (if x = a then map_option f (node_at h a) else node_at h x)"
  by (auto simp: update_node_def node_at_def obj_at_def nth_list_update
      split: option.splits obj.splits)

lemma curRetry_of_set [simp]:
  "node_at (heap s) a = Some n \<Longrightarrow> curRetry_of (heap (set_curRetry a i s)) a = i"
  by (simp add: curRetry_of_def set_curRetry_def node_at_update_node)

lemma node_at_set_curRetry:
  "node_at (heap (set_curRetry a i s)) x =
     (if x = a then map_option (\<lambda>n. n\<lparr>curRetry := i\<rparr>) (node_at (heap s) a) else node_at (heap s) x)"
  by (simp add: set_curRetry_def node_at_update_node)

lemma call_exec_fields:
  assumes "call_exec hk a p s = (r, s1)"
  shows "heap s1 = heap s" "trace s1 = trace s @ [EvExec a (curRetry_of (heap s) a) p r]"
    "timers s1 = timers s" "delivered s1 = delivered s" "handlers s1 = handlers s"
    "fst (exec hk a (heap s) p (world s)) = r"
    "snd (exec hk a (heap s) p (world s)) = world s1"
  using assms by (auto simp: call_exec_def record_event_def split: prod.splits)

lemma call_execFallback_fields:
  assumes "call_execFallback hk a p e s = (r, s1)"
  shows "heap s1 = heap s" "trace s1 = trace s @ [EvFallback a (curRetry_of (heap s) a) p e r]"
    "timers s1 = timers s" "delivered s1 = delivered s" "handlers s1 = handlers s"
    "fst (execFallback hk a (heap s) p e (world s)) = r"
    "snd (execFallback hk a (heap s) p e (world s)) = world s1"
  using assms by (auto simp: call_execFallback_def record_event_def split: prod.splits)

lemma update_node_twice:
  "update_node a f (update_node a g h) = update_node a (\<lambda>n. f (g n)) h"
  by (auto simp: update_node_def node_at_def obj_at_def split: option.splits obj.splits)

lemma curRetry_of_update_wait [simp]:
  "curRetry_of (update_node a (\<lambda>n. n\<lparr>wait := v\<rparr>) h) x = curRetry_of h x"
  by (auto simp: curRetry_of_def node_at_update_node split: option.splits)

lemma update_node_id:
  "update_node a (\<lambda>n. n\<lparr>curRetry := curRetry_of h a\<rparr>) h = h"
  by (auto simp: update_node_def curRetry_of_def node_at_def obj_at_def list_update_same_conv
      split: option.splits obj.splits)

subsection \<open>The retry loop\<close>

lemma retry_loop_success:
  "i < mx \<Longrightarrow> call_exec hk a p s = (Inr v, s1) \<Longrightarrow> retry_loop hk a mx wt i p s = (Inr v, s1)"
  by (subst retry_loop.simps) simp

lemma retry_loop_last:
  "i < mx \<Longrightarrow> call_exec hk a p s = (Inl e, s1) \<Longrightarrow> i = mx - 1
   \<Longrightarrow> retry_loop hk a mx wt i p s = call_execFallback hk a p e s1"
  by (subst retry_loop.simps) simp

lemma retry_loop_again:
  "i < mx \<Longrightarrow> call_exec hk a p s = (Inl e, s1) \<Longrightarrow> i \<noteq> mx - 1
   \<Longrightarrow> retry_loop hk a mx wt i p s =
       retry_loop hk a mx wt (i + 1) p
         (set_curRetry a (i + 1)
            (if wt > 0 then schedule_noop (wt * 1000) (warn sync_wait_message s1) else s1))"
  by (subst retry_loop.simps) simp

lemma retry_loop_done:
  "\<not> i < mx \<Longrightarrow> retry_loop hk a mx wt i p s = (Inr JUndefined, s)"
  by (subst retry_loop.simps) simp

lemma retry_loop_attempts:
  assumes "retry_loop hk a mx wt i p s = (r, s')"
    and "node_at (heap s) a \<noteq> None" and "curRetry_of (heap s) a = i" and "i < mx"
  shows "\<exists>outs. outs \<noteq> [] \<and> i + int (length outs) \<le> mx
      \<and> (\<forall>x \<in> set (butlast outs). isl x)
      \<and> (\<forall>x \<in> set outs. \<exists>h w. x = fst (exec hk a h p w))
      \<and> curRetry_of (heap s') a = i + int (length outs) - 1
      \<and> timers s' = timers s @ (if wt > 0 then replicate (length outs - 1) (wt * 1000) else [])
      \<and> delivered s' = delivered s @
            (if wt > 0
             then concat (replicate (length outs - 1)
                            (map (\<lambda>h. (h, sync_wait_message)) (handlers s)))
             else [])
      \<and> handlers s' = handlers s
      \<and> (case last outs of
            Inr v \<Rightarrow> r = Inr v \<and> trace s' = trace s @ exec_events a p i outs
          | Inl e \<Rightarrow> i + int (length outs) = mx
              \<and> trace s' = trace s @ exec_events a p i outs @ [EvFallback a (mx - 1) p e r]
              \<and> (\<exists>h w. r = fst (execFallback hk a h p e w)))"
  using assms
proof (induction hk a mx wt i p s arbitrary: r s' rule: retry_loop.induct)
  case (1 hk this mx wt i prepRes s)
  obtain r1 s1 where ce: "call_exec hk this prepRes s = (r1, s1)"
    by (cases "call_exec hk this prepRes s")
  note f1 = call_exec_fields[OF ce]
  have org: "\<exists>h w. r1 = fst (exec hk this h prepRes w)"
    using f1(6) by metis
  show ?case
  proof (cases r1)
    case (Inr v)
    with "1.prems" ce have "r = Inr v" "s' = s1"
      by (simp_all add: retry_loop_success)
    then show ?thesis
      using f1(1-5) Inr "1.prems" org
      by (intro exI[of _ "[Inr v]"]) auto
  next
    case (Inl e)
    show ?thesis
    proof (cases "i = mx - 1")
      case True
      with "1.prems" ce Inl have fb: "call_execFallback hk this prepRes e s1 = (r, s')"
        using retry_loop_last[of i mx hk this prepRes s e s1 wt] by simp
      note f2 = call_execFallback_fields[OF fb]
      have org2: "\<exists>h w. r = fst (execFallback hk this h prepRes e w)"
        using f2(6) by metis
      show ?thesis
        using f1(1-5) f2(1-5) Inl True "1.prems" org org2
        by (intro exI[of _ "[Inl e]"]) (auto simp: curRetry_of_def)
    next
      case False
      let ?s2 = "set_curRetry this (i + 1)
                    (if wt > 0 then schedule_noop (wt * 1000) (warn sync_wait_message s1)
                     else s1)"
      from "1.prems" ce Inl False
      have rec: "retry_loop hk this mx wt (i + 1) prepRes ?s2 = (r, s')"
        using retry_loop_again[of i mx hk this prepRes s e s1 wt] by simp
      have n2: "node_at (heap ?s2) this \<noteq> None"
        using "1.prems"(2) f1(1) by (auto simp: node_at_set_curRetry)
      have c2: "curRetry_of (heap ?s2) this = i + 1"
        using "1.prems"(2) f1(1) by auto
      have lt: "i + 1 < mx" using "1.prems"(4) False by simp
      from "1.IH"[OF "1.prems"(4) ce[symmetric] _ False rec n2 c2 lt] Inl
      obtain outs where o: "outs \<noteq> []" "i + 1 + int (length outs) \<le> mx"
        "\<forall>x \<in> set (butlast outs). isl x"
        "\<forall>x \<in> set outs. \<exists>h w. x = fst (exec hk this h prepRes w)"
        "curRetry_of (heap s') this = i + 1 + int (length outs) - 1"
        "timers s' = timers ?s2 @ (if wt > 0 then replicate (length outs - 1) (wt * 1000) else [])"
        "delivered s' = delivered ?s2 @
            (if wt > 0
             then concat (replicate (length outs - 1)
                            (map (\<lambda>h. (h, sync_wait_message)) (handlers ?s2)))
             else [])"
        "handlers s' = handlers ?s2"
        "(case last outs of
            Inr v \<Rightarrow> r = Inr v \<and> trace s' = trace ?s2 @ exec_events this prepRes (i + 1) outs
          | Inl e \<Rightarrow> i + 1 + int (length outs) = mx
              \<and> trace s' = trace ?s2 @ exec_events this prepRes (i + 1) outs
                    @ [EvFallback this (mx - 1) prepRes e r]
              \<and> (\<exists>h w. r = fst (execFallback hk this h prepRes e w)))"
        by auto
      have t2: "trace ?s2 = trace s @ [EvExec this i prepRes (Inl e)]"
        using f1(2) Inl "1.prems"(3) by simp
      have h2: "handlers ?s2 = handlers s"
        using f1(5) by simp
      have tm2: "timers ?s2 = timers s @ (if wt > 0 then [wt * 1000] else [])"
        using f1(3) by (simp add: schedule_noop_def)
      have d2: "delivered ?s2 = delivered s @
          (if wt > 0 then map (\<lambda>h. (h, sync_wait_message)) (handlers s) else [])"
        using f1(4,5) by (simp add: warn_def)
      have len: "length (Inl e # outs) - 1 = Suc (length outs - 1)"
        using o(1) by (cases outs) simp_all
      have tm: "timers s' = timers s @
          (if wt > 0 then replicate (length (Inl e # outs) - 1) (wt * 1000) else [])"
        unfolding o(6) tm2 len by simp
      have dl: "delivered s' = delivered s @
            (if wt > 0
             then concat (replicate (length (Inl e # outs) - 1)
                            (map (\<lambda>h. (h, sync_wait_message)) (handlers s)))
             else [])"
        unfolding o(7) d2 h2 len by simp
      have hd: "handlers s' = handlers s"
        using o(8) h2 by simp
      have rest: "Inl e # outs \<noteq> [] \<and> i + int (length (Inl e # outs)) \<le> mx
        \<and> (\<forall>x \<in> set (butlast (Inl e # outs)). isl x)
        \<and> (\<forall>x \<in> set (Inl e # outs). \<exists>h w. x = fst (exec hk this h prepRes w))
        \<and> curRetry_of (heap s') this = i + int (length (Inl e # outs)) - 1"
        using o(1-5) org Inl by auto
      have tr: "(case last (Inl e # outs) of
            Inr v \<Rightarrow> r = Inr v \<and> trace s' = trace s @ exec_events this prepRes i (Inl e # outs)
          | Inl e' \<Rightarrow> i + int (length (Inl e # outs)) = mx
              \<and> trace s' = trace s @ exec_events this prepRes i (Inl e # outs)
                    @ [EvFallback this (mx - 1) prepRes e' r]
              \<and> (\<exists>h w. r = fst (execFallback hk this h prepRes e' w)))"
        using o(1,9) t2 by (auto split: sum.splits)
      show ?thesis
        using rest tm dl hd tr
        by (intro exI[of _ "Inl e # outs"]) blast
    qed
  qed
qed

lemma exec_events_count: "length (filter is_exec_event (exec_events a p i outs)) = length outs"
  by (induction outs arbitrary: i) simp_all

lemma exec_events_no_fallback: "filter is_fallback_event (exec_events a p i outs) = []"
  by (induction outs arbitrary: i) simp_all

lemma retry_loop_heap:
  assumes "retry_loop hk a mx wt i p s = (r, s')"
  shows "\<exists>c. heap s' = update_node a (\<lambda>n. n\<lparr>curRetry := c\<rparr>) (heap s)"
  using assms
proof (induction hk a mx wt i p s arbitrary: r s' rule: retry_loop.induct)
  case (1 hk this mx wt i prepRes s)
  show ?case
  proof (cases "i < mx")
    case False
    with "1.prems" have "s' = s" by (simp add: retry_loop_done)
    then show ?thesis using update_node_id[of this "heap s"] by metis
  next
    case True
    obtain r1 s1 where ce: "call_exec hk this prepRes s = (r1, s1)"
      by (cases "call_exec hk this prepRes s")
    note f1 = call_exec_fields[OF ce]
    show ?thesis
    proof (cases r1)
      case (Inr v)
      with "1.prems" ce True have "s' = s1" by (simp add: retry_loop_success)
      then show ?thesis using f1(1) update_node_id[of this "heap s"] by metis
    next
      case (Inl e)
      show ?thesis
      proof (cases "i = mx - 1")
        case last: True
        from "1.prems" ce Inl True last
        have fb: "call_execFallback hk this prepRes e s1 = (r, s')"
          using retry_loop_last[of i mx hk this prepRes s e s1 wt] by simp
        show ?thesis
          using call_execFallback_fields(1)[OF fb] f1(1) update_node_id[of this "heap s"]
          by metis
      next
        case more: False
        let ?s2 = "set_curRetry this (i + 1)
                    (if wt > 0 then schedule_noop (wt * 1000) (warn sync_wait_message s1)
                     else s1)"
        from "1.prems" ce Inl True more
        have rec: "retry_loop hk this mx wt (i + 1) prepRes ?s2 = (r, s')"
          using retry_loop_again[of i mx hk this prepRes s e s1 wt] by simp
        from "1.IH"[OF True ce[symmetric] _ more rec] Inl
        obtain c where c: "heap s' = update_node this (\<lambda>n. n\<lparr>curRetry := c\<rparr>) (heap ?s2)"
          by auto
        have h2: "heap ?s2 = update_node this (\<lambda>n. n\<lparr>curRetry := i + 1\<rparr>) (heap s)"
          using f1(1) by (simp add: set_curRetry_def)
        have "heap s' = update_node this (\<lambda>n. n\<lparr>curRetry := c\<rparr>) (heap s)"
          unfolding c h2 update_node_twice
          by (rule arg_cong[where f = "\<lambda>f. update_node this f (heap s)"]) (rule ext, simp)
        then show ?thesis by blast
      qed
    qed
  qed
qed

lemma Node_exec_heap:
  assumes "Node_exec H a p s = (r, s')"
  shows "\<exists>c. heap s' = update_node a (\<lambda>n. n\<lparr>curRetry := c\<rparr>) (heap s)"
proof (cases "node_at (heap s) a")
  case None
  with assms have "s' = s" by (simp add: Node_exec_def)
  then show ?thesis using update_node_id[of a "heap s"] by metis
next
  case (Some n)
  with assms have "retry_loop (H (impl n)) a (maxRetries n) (wait n) 0 p (set_curRetry a 0 s) = (r, s')"
    by (simp add: Node_exec_def)
  from retry_loop_heap[OF this] obtain c where
    "heap s' = update_node a (\<lambda>n. n\<lparr>curRetry := c\<rparr>) (heap (set_curRetry a 0 s))" by blast
  then have "heap s' = update_node a (\<lambda>n. n\<lparr>curRetry := c\<rparr>) (heap s)"
    unfolding set_curRetry_def
    by (simp add: update_node_twice)
  then show ?thesis by blast
qed

lemma Node_exec_trace:
  assumes "node_at (heap s) a = Some n" and "Node_exec H a p s = (r, s')"
  shows "\<exists>outs fb. trace s' = trace s @ exec_events a p 0 outs @ fb
      \<and> (fb = [] \<or> (\<exists>e. fb = [EvFallback a (maxRetries n - 1) p e r]))"
proof -
  let ?s0 = "set_curRetry a 0 s"
  have rl: "retry_loop (H (impl n)) a (maxRetries n) (wait n) 0 p ?s0 = (r, s')"
    using assms by (simp add: Node_exec_def)
  show ?thesis
  proof (cases "0 < maxRetries n")
    case False
    with rl have "s' = ?s0" by (simp add: retry_loop_done)
    then show ?thesis by (intro exI[of _ "[]"]) simp
  next
    case True
    have n0: "node_at (heap ?s0) a \<noteq> None"
      using assms(1) by (simp add: node_at_set_curRetry)
    have c0: "curRetry_of (heap ?s0) a = 0"
      using assms(1) by simp
    from retry_loop_attempts[OF rl n0 c0 True]
    obtain outs where o: "(case last outs of
            Inr v \<Rightarrow> r = Inr v \<and> trace s' = trace ?s0 @ exec_events a p 0 outs
          | Inl e \<Rightarrow> 0 + int (length outs) = maxRetries n
              \<and> trace s' = trace ?s0 @ exec_events a p 0 outs
                    @ [EvFallback a (maxRetries n - 1) p e r]
              \<and> (\<exists>h w. r = fst (execFallback (H (impl n)) a h p e w)))"
      by auto
    show ?thesis
    proof (cases "last outs")
      case (Inl e)
      with o show ?thesis
        by (intro exI[of _ outs] exI[of _ "[EvFallback a (maxRetries n - 1) p e r]"]) simp
    next
      case (Inr v)
      with o show ?thesis
        by (intro exI[of _ outs] exI[of _ "[]"]) simp
    qed
  qed
qed

text \<open>
  C1: \<open>Node._exec\<close> on a node with \<open>maxRetries = k \<ge> 1\<close>. Let \<open>outs\<close> be the outcomes
  of the calls of \<open>exec\<close>, in order. There are between one and \<open>k\<close> of them, all but the
  last are throws, and \<open>curRetry\<close> counts them from 0. If the last attempt returns (the
  first normal return, attempt \<open>j = length outs \<le> k\<close>), \<open>_exec\<close> returns that value and
  the trace holds these \<open>j\<close> calls of \<open>exec\<close> and no call of \<open>execFallback\<close>. If the last
  attempt throws, then all \<open>k\<close> attempts were made and threw, and \<open>execFallback\<close> is called
  exactly once, after them, with \<open>curRetry = k - 1\<close> and the last error; \<open>_exec\<close> gives
  what it gives, which for the default \<open>execFallback\<close> is that error thrown again.
\<close>

theorem Node_exec_retry:
  assumes "node_at (heap s) a = Some n" and "1 \<le> maxRetries n"
    and "Node_exec H a p s = (r, s')"
  shows "\<exists>outs. outs \<noteq> [] \<and> int (length outs) \<le> maxRetries n
      \<and> (\<forall>x \<in> set (butlast outs). isl x)
      \<and> (\<forall>x \<in> set outs. \<exists>h w. x = fst (exec (H (impl n)) a h p w))
      \<and> length (filter is_exec_event (drop (length (trace s)) (trace s'))) = length outs
      \<and> curRetry_of (heap s') a = int (length outs) - 1
      \<and> (case last outs of
            Inr v \<Rightarrow> r = Inr v \<and> trace s' = trace s @ exec_events a p 0 outs
          | Inl e \<Rightarrow> int (length outs) = maxRetries n
              \<and> trace s' = trace s @ exec_events a p 0 outs
                    @ [EvFallback a (maxRetries n - 1) p e r]
              \<and> (\<exists>h w. r = fst (execFallback (H (impl n)) a h p e w))
              \<and> (execFallback (H (impl n)) = execFallback default_hooks \<longrightarrow> r = Inl e))"
proof -
  let ?s0 = "set_curRetry a 0 s"
  have rl: "retry_loop (H (impl n)) a (maxRetries n) (wait n) 0 p ?s0 = (r, s')"
    using assms(1,3) by (simp add: Node_exec_def)
  have n0: "node_at (heap ?s0) a \<noteq> None"
    using assms(1) by (simp add: node_at_set_curRetry)
  have c0: "curRetry_of (heap ?s0) a = 0"
    using assms(1) by simp
  from retry_loop_attempts[OF rl n0 c0] assms(2)
  obtain outs where o: "outs \<noteq> []" "int (length outs) \<le> maxRetries n"
    "\<forall>x \<in> set (butlast outs). isl x"
    "\<forall>x \<in> set outs. \<exists>h w. x = fst (exec (H (impl n)) a h p w)"
    "curRetry_of (heap s') a = int (length outs) - 1"
    "(case last outs of
            Inr v \<Rightarrow> r = Inr v \<and> trace s' = trace ?s0 @ exec_events a p 0 outs
          | Inl e \<Rightarrow> 0 + int (length outs) = maxRetries n
              \<and> trace s' = trace ?s0 @ exec_events a p 0 outs
                    @ [EvFallback a (maxRetries n - 1) p e r]
              \<and> (\<exists>h w. r = fst (execFallback (H (impl n)) a h p e w)))"
    by auto
  have cnt: "length (filter is_exec_event (drop (length (trace s)) (trace s'))) = length outs"
    using o(6) by (cases "last outs") (simp_all add: exec_events_count)
  have dflt: "r = Inl e" if "last outs = Inl e"
    "execFallback (H (impl n)) = execFallback default_hooks" for e
    using o(6) that by (auto simp: default_hooks_def)
  have tr: "(case last outs of
            Inr v \<Rightarrow> r = Inr v \<and> trace s' = trace s @ exec_events a p 0 outs
          | Inl e \<Rightarrow> int (length outs) = maxRetries n
              \<and> trace s' = trace s @ exec_events a p 0 outs
                    @ [EvFallback a (maxRetries n - 1) p e r]
              \<and> (\<exists>h w. r = fst (execFallback (H (impl n)) a h p e w))
              \<and> (execFallback (H (impl n)) = execFallback default_hooks \<longrightarrow> r = Inl e))"
    using o(6) dflt by (cases "last outs") auto
  show ?thesis
    using o(1-5) cnt tr by (intro exI[of _ outs]) blast
qed

lemma retry_state_node: "node_at (heap retry_state) 0 = Some retry_node"
  by (simp add: retry_state_def initial_state_def node_at_def obj_at_def)

lemma retry_node_max: "1 \<le> maxRetries retry_node"
  by (simp add: retry_node_def)

theorem Node_exec_retry_witness:
  "node_at (heap retry_state) 0 = Some retry_node \<and> 1 \<le> maxRetries retry_node
   \<and> fst (Node_exec (\<lambda>i. flaky_hooks) 0 JNull retry_state) = Inr (JStr ''ok'')
   \<and> trace (snd (Node_exec (\<lambda>i. flaky_hooks) 0 JNull retry_state)) =
        [EvExec 0 0 JNull (Inl (JStr ''boom'')), EvExec 0 1 JNull (Inl (JStr ''boom'')),
         EvExec 0 2 JNull (Inr (JStr ''ok''))]
   \<and> (\<exists>outs. outs \<noteq> [] \<and> int (length outs) \<le> maxRetries retry_node
      \<and> length (filter is_exec_event
           (drop (length (trace retry_state))
              (trace (snd (Node_exec (\<lambda>i. flaky_hooks) 0 JNull retry_state))))) = length outs)"
proof -
  have ev: "fst (Node_exec (\<lambda>i. flaky_hooks) 0 JNull retry_state) = Inr (JStr ''ok'')
    \<and> trace (snd (Node_exec (\<lambda>i. flaky_hooks) 0 JNull retry_state)) =
        [EvExec 0 0 JNull (Inl (JStr ''boom'')), EvExec 0 1 JNull (Inl (JStr ''boom'')),
         EvExec 0 2 JNull (Inr (JStr ''ok''))]"
    by (simp add: Node_exec_def retry_state_node retry_loop.simps call_exec_def
        flaky_hooks_def default_hooks_def retry_node_def example_node_def set_curRetry_def
        retry_state_def initial_state_def update_node_def node_at_def obj_at_def
        curRetry_of_def record_event_def schedule_noop_def warn_def initial_handlers_def
        sync_wait_message_def)
  have "\<exists>outs. outs \<noteq> [] \<and> int (length outs) \<le> maxRetries retry_node
      \<and> length (filter is_exec_event
           (drop (length (trace retry_state))
              (trace (snd (Node_exec (\<lambda>i. flaky_hooks) 0 JNull retry_state))))) = length outs"
    using Node_exec_retry[OF retry_state_node retry_node_max,
      of "\<lambda>i. flaky_hooks" JNull "fst (Node_exec (\<lambda>i. flaky_hooks) 0 JNull retry_state)"
         "snd (Node_exec (\<lambda>i. flaky_hooks) 0 JNull retry_state)"]
    by auto
  then show ?thesis
    using retry_state_node retry_node_max ev by blast
qed

subsection \<open>The synchronous retry delay\<close>

lemma same_but_wait_exec:
  assumes "ignores_wait hk a" "same_but_wait a s1 s2"
  shows "exec hk a (heap s1) p (world s1) = exec hk a (heap s2) p (world s2)"
    "execFallback hk a (heap s1) p e (world s1) = execFallback hk a (heap s2) p e (world s2)"
    "curRetry_of (heap s1) a = curRetry_of (heap s2) a"
proof -
  let ?n = "\<lambda>h. update_node a (\<lambda>n. n\<lparr>wait := 0\<rparr>) h"
  have e: "exec hk a (heap s1) p (world s1) = exec hk a (?n (heap s1)) p (world s1)"
    "exec hk a (heap s2) p (world s2) = exec hk a (?n (heap s2)) p (world s2)"
    "execFallback hk a (heap s1) p e (world s1) = execFallback hk a (?n (heap s1)) p e (world s1)"
    "execFallback hk a (heap s2) p e (world s2) = execFallback hk a (?n (heap s2)) p e (world s2)"
    using assms(1) by (simp_all add: ignores_wait_def)
  show "exec hk a (heap s1) p (world s1) = exec hk a (heap s2) p (world s2)"
    "execFallback hk a (heap s1) p e (world s1) = execFallback hk a (heap s2) p e (world s2)"
    using e assms(2) by (simp_all add: same_but_wait_def)
  have "curRetry_of (?n (heap s1)) a = curRetry_of (?n (heap s2)) a"
    using assms(2) by (simp add: same_but_wait_def)
  then show "curRetry_of (heap s1) a = curRetry_of (heap s2) a"
    by simp
qed

lemma same_but_wait_call_exec:
  assumes "ignores_wait hk a" "same_but_wait a s1 s2"
  shows "fst (call_exec hk a p s1) = fst (call_exec hk a p s2)"
    "same_but_wait a (snd (call_exec hk a p s1)) (snd (call_exec hk a p s2))"
  using same_but_wait_exec(1,3)[OF assms] assms(2)
  by (auto simp: call_exec_def record_event_def same_but_wait_def split: prod.splits)

lemma same_but_wait_call_execFallback:
  assumes "ignores_wait hk a" "same_but_wait a s1 s2"
  shows "fst (call_execFallback hk a p e s1) = fst (call_execFallback hk a p e s2)"
    "same_but_wait a (snd (call_execFallback hk a p e s1)) (snd (call_execFallback hk a p e s2))"
  using same_but_wait_exec(2,3)[OF assms] assms(2)
  by (auto simp: call_execFallback_def record_event_def same_but_wait_def split: prod.splits)

lemma same_but_wait_next_attempt:
  assumes "same_but_wait a s1 s2"
  shows "same_but_wait a (set_curRetry a j (if w1 > 0 then schedule_noop (w1 * 1000) (warn m s1) else s1))
               (set_curRetry a j (if w2 > 0 then schedule_noop (w2 * 1000) (warn m s2) else s2))"
proof -
  have c: "update_node a (\<lambda>n. n\<lparr>wait := 0\<rparr>) (update_node a (\<lambda>n. n\<lparr>curRetry := j\<rparr>) h)
     = update_node a (\<lambda>n. n\<lparr>curRetry := j\<rparr>) (update_node a (\<lambda>n. n\<lparr>wait := 0\<rparr>) h)" for h
    unfolding update_node_twice
    by (rule arg_cong[where f = "\<lambda>f. update_node a f h"]) (rule ext, simp)
  show ?thesis
    using assms by (simp add: same_but_wait_def set_curRetry_def c)
qed

lemma retry_loop_wait_independent:
  assumes "ignores_wait hk a" "same_but_wait a s1 s2"
  shows "fst (retry_loop hk a mx w1 i p s1) = fst (retry_loop hk a mx w2 i p s2)
     \<and> same_but_wait a (snd (retry_loop hk a mx w1 i p s1)) (snd (retry_loop hk a mx w2 i p s2))"
  using assms
proof (induction hk a mx w1 i p s1 arbitrary: s2 rule: retry_loop.induct)
  case (1 hk this mx wt i prepRes s)
  show ?case
  proof (cases "i < mx")
    case False
    then show ?thesis using "1.prems"(2) by (simp add: retry_loop_done)
  next
    case True
    obtain r1 t1 where c1: "call_exec hk this prepRes s = (r1, t1)"
      by (cases "call_exec hk this prepRes s")
    obtain r2 t2 where c2: "call_exec hk this prepRes s2 = (r2, t2)"
      by (cases "call_exec hk this prepRes s2")
    from same_but_wait_call_exec[OF "1.prems", of prepRes] c1 c2
    have eq: "r2 = r1" and st: "same_but_wait this t1 t2" by simp_all
    show ?thesis
    proof (cases r1)
      case (Inr v)
      then show ?thesis
        using True c1 c2 eq st by (simp add: retry_loop_success)
    next
      case (Inl e)
      show ?thesis
      proof (cases "i = mx - 1")
        case last: True
        show ?thesis
          using True c1 c2 eq Inl last same_but_wait_call_execFallback[OF "1.prems"(1) st, of prepRes e]
          by (simp add: retry_loop_last)
      next
        case more: False
        let ?n1 = "set_curRetry this (i + 1)
            (if wt > 0 then schedule_noop (wt * 1000) (warn sync_wait_message t1) else t1)"
        let ?n2 = "set_curRetry this (i + 1)
            (if w2 > 0 then schedule_noop (w2 * 1000) (warn sync_wait_message t2) else t2)"
        have s12: "same_but_wait this ?n1 ?n2"
          by (rule same_but_wait_next_attempt[OF st])
        have l1: "retry_loop hk this mx wt i prepRes s = retry_loop hk this mx wt (i + 1) prepRes ?n1"
          using True c1 Inl more by (simp add: retry_loop_again)
        have l2: "retry_loop hk this mx w2 i prepRes s2 = retry_loop hk this mx w2 (i + 1) prepRes ?n2"
          using True c2 eq Inl more by (simp add: retry_loop_again)
        from "1.IH"[OF True c1[symmetric] _ more "1.prems"(1) s12] Inl
        show ?thesis
          unfolding l1 l2 by simp
      qed
    qed
  qed
qed

lemma node_at_with_wait:
  "node_at (heap (with_wait a v s)) x =
     (if x = a then map_option (\<lambda>n. n\<lparr>wait := v\<rparr>) (node_at (heap s) a) else node_at (heap s) x)"
  by (simp add: with_wait_def node_at_update_node)

lemma with_wait_fields [simp]:
  "world (with_wait a v s) = world s" "trace (with_wait a v s) = trace s"
  "timers (with_wait a v s) = timers s" "delivered (with_wait a v s) = delivered s"
  "handlers (with_wait a v s) = handlers s"
  by (simp_all add: with_wait_def)

lemma same_but_wait_with_wait:
  "same_but_wait a (set_curRetry a 0 (with_wait a w1 s)) (set_curRetry a 0 (with_wait a w2 s))"
proof -
  have "update_node a (\<lambda>n. n\<lparr>wait := 0\<rparr>)
          (update_node a (\<lambda>n. n\<lparr>curRetry := 0\<rparr>) (update_node a (\<lambda>n. n\<lparr>wait := v\<rparr>) h))
        = update_node a (\<lambda>n. n\<lparr>curRetry := 0, wait := 0\<rparr>) h" for v h
    unfolding update_node_twice
    by (rule arg_cong[where f = "\<lambda>f. update_node a f h"]) (rule ext, simp)
  then show ?thesis
    by (simp add: same_but_wait_def set_curRetry_def with_wait_def)
qed

lemma Node_exec_with_wait:
  assumes "node_at (heap s) a = Some n"
  shows "Node_exec H a p (with_wait a v s) =
     retry_loop (H (impl n)) a (maxRetries n) v 0 p (set_curRetry a 0 (with_wait a v s))"
  using assms by (simp add: Node_exec_def node_at_with_wait)

text \<open>
  C6: for a subclass whose \<open>exec\<close> and \<open>execFallback\<close> do not read \<open>this.wait\<close>, the
  value \<open>Node._exec\<close> returns (or throws), the sequence of calls of \<open>exec\<close> and
  \<open>execFallback\<close> with their outcomes, and the world they leave are the same for any
  two values of \<open>wait\<close>. Nothing on this path suspends the caller: a positive \<open>wait\<close>
  only adds, for each failed attempt that is retried, one no-op timer of \<open>wait * 1000\<close>
  milliseconds and one warning to every handler.
\<close>

theorem Node_exec_wait_irrelevant:
  assumes "node_at (heap s) a = Some n" and "ignores_wait (H (impl n)) a"
  shows "fst (Node_exec H a p (with_wait a w1 s)) = fst (Node_exec H a p (with_wait a w2 s))
    \<and> trace (snd (Node_exec H a p (with_wait a w1 s)))
        = trace (snd (Node_exec H a p (with_wait a w2 s)))
    \<and> world (snd (Node_exec H a p (with_wait a w1 s)))
        = world (snd (Node_exec H a p (with_wait a w2 s)))
    \<and> timers (snd (Node_exec H a p (with_wait a w1 s))) = timers s @
        (if w1 > 0
         then replicate
                (length (filter is_exec_event
                   (drop (length (trace s)) (trace (snd (Node_exec H a p (with_wait a w1 s)))))) - 1)
                (w1 * 1000)
         else [])
    \<and> delivered (snd (Node_exec H a p (with_wait a w1 s))) = delivered s @
        (if w1 > 0
         then concat (replicate
                (length (filter is_exec_event
                   (drop (length (trace s)) (trace (snd (Node_exec H a p (with_wait a w1 s)))))) - 1)
                (map (\<lambda>h. (h, sync_wait_message)) (handlers s)))
         else [])"
proof -
  let ?hk = "H (impl n)"
  let ?s1 = "set_curRetry a 0 (with_wait a w1 s)"
  let ?s2 = "set_curRetry a 0 (with_wait a w2 s)"
  let ?r1 = "retry_loop ?hk a (maxRetries n) w1 0 p ?s1"
  note ind = retry_loop_wait_independent[OF assms(2) same_but_wait_with_wait,
      of "maxRetries n" w1 0 p w1 s w2 w2]
  have same: "fst (Node_exec H a p (with_wait a w1 s)) = fst (Node_exec H a p (with_wait a w2 s))"
    "trace (snd (Node_exec H a p (with_wait a w1 s)))
        = trace (snd (Node_exec H a p (with_wait a w2 s)))"
    "world (snd (Node_exec H a p (with_wait a w1 s)))
        = world (snd (Node_exec H a p (with_wait a w2 s)))"
    using ind by (simp_all add: Node_exec_with_wait[OF assms(1)] same_but_wait_def)
  have counts: "timers (snd ?r1) = timers s @
        (if w1 > 0
         then replicate (length (filter is_exec_event (drop (length (trace s)) (trace (snd ?r1)))) - 1)
                (w1 * 1000)
         else [])
    \<and> delivered (snd ?r1) = delivered s @
        (if w1 > 0
         then concat (replicate
                (length (filter is_exec_event (drop (length (trace s)) (trace (snd ?r1)))) - 1)
                (map (\<lambda>h. (h, sync_wait_message)) (handlers s)))
         else [])"
  proof (cases "0 < maxRetries n")
    case False
    then show ?thesis by (simp add: retry_loop_done)
  next
    case True
    have n0: "node_at (heap ?s1) a \<noteq> None"
      using assms(1) by (simp add: node_at_set_curRetry node_at_with_wait)
    have c0: "curRetry_of (heap ?s1) a = 0"
      using assms(1) by (simp add: curRetry_of_def node_at_set_curRetry node_at_with_wait)
    obtain r s' where rs: "?r1 = (r, s')" by (cases ?r1)
    from retry_loop_attempts[OF rs n0 c0 True]
    obtain outs where o: "outs \<noteq> []"
      "timers s' = timers ?s1 @ (if w1 > 0 then replicate (length outs - 1) (w1 * 1000) else [])"
      "delivered s' = delivered ?s1 @
            (if w1 > 0
             then concat (replicate (length outs - 1)
                            (map (\<lambda>h. (h, sync_wait_message)) (handlers ?s1)))
             else [])"
      "(case last outs of
            Inr v \<Rightarrow> r = Inr v \<and> trace s' = trace ?s1 @ exec_events a p 0 outs
          | Inl e \<Rightarrow> 0 + int (length outs) = maxRetries n
              \<and> trace s' = trace ?s1 @ exec_events a p 0 outs
                    @ [EvFallback a (maxRetries n - 1) p e r]
              \<and> (\<exists>h w. r = fst (execFallback ?hk a h p e w)))"
      by auto
    have cnt: "length (filter is_exec_event (drop (length (trace s)) (trace s'))) = length outs"
      using o(4) by (cases "last outs") (simp_all add: exec_events_count)
    show ?thesis
      using o(2,3) by (simp add: rs cnt)
  qed
  show ?thesis
    using same counts by (simp add: Node_exec_with_wait[OF assms(1)])
qed

lemma flaky_ignores_wait: "ignores_wait flaky_hooks 0"
  by (simp add: ignores_wait_def flaky_hooks_def default_hooks_def)

lemma retry_impl: "impl retry_node = 0"
  by (simp add: retry_node_def example_node_def)

theorem Node_exec_wait_irrelevant_witness:
  "node_at (heap retry_state) 0 = Some retry_node
   \<and> ignores_wait flaky_hooks 0
   \<and> fst (Node_exec (\<lambda>i. flaky_hooks) 0 JNull (with_wait 0 5 retry_state))
       = fst (Node_exec (\<lambda>i. flaky_hooks) 0 JNull (with_wait 0 0 retry_state))
   \<and> trace (snd (Node_exec (\<lambda>i. flaky_hooks) 0 JNull (with_wait 0 5 retry_state)))
       = trace (snd (Node_exec (\<lambda>i. flaky_hooks) 0 JNull (with_wait 0 0 retry_state)))
   \<and> timers (snd (Node_exec (\<lambda>i. flaky_hooks) 0 JNull (with_wait 0 5 retry_state)))
       = [5000, 5000]
   \<and> timers (snd (Node_exec (\<lambda>i. flaky_hooks) 0 JNull (with_wait 0 0 retry_state))) = []"
proof -
  have tm: "timers (snd (Node_exec (\<lambda>i. flaky_hooks) 0 JNull (with_wait 0 5 retry_state)))
       = [5000, 5000]
   \<and> timers (snd (Node_exec (\<lambda>i. flaky_hooks) 0 JNull (with_wait 0 0 retry_state))) = []"
    by (simp add: Node_exec_def with_wait_def retry_loop.simps call_exec_def
        flaky_hooks_def default_hooks_def retry_node_def example_node_def set_curRetry_def
        retry_state_def initial_state_def update_node_def node_at_def obj_at_def
        curRetry_of_def record_event_def schedule_noop_def warn_def initial_handlers_def
        sync_wait_message_def)
  have iw: "ignores_wait ((\<lambda>i. flaky_hooks) (impl retry_node)) 0"
    by (simp add: flaky_ignores_wait)
  show ?thesis
    using Node_exec_wait_irrelevant[OF retry_state_node iw, of JNull 5 0]
      retry_state_node flaky_ignores_wait tm
    by blast
qed

subsection \<open>BatchNode\<close>

lemma Node_exec_node:
  assumes "node_at (heap s) a = Some n" and "Node_exec H a p s = (r, s')"
  shows "\<exists>c. node_at (heap s') a = Some (n\<lparr>curRetry := c\<rparr>)"
  using Node_exec_heap[OF assms(2)] assms(1) by (auto simp: node_at_update_node)

lemma map_exec_chain:
  assumes "map_exec H a xs s = (r, s')" and "node_at (heap s) a = Some n"
  shows "\<exists>vs ss. length ss = Suc (length vs) \<and> length vs \<le> length xs \<and> ss ! 0 = s
      \<and> (\<forall>i < length vs.
            Node_exec H a (xs ! i) (ss ! i) = (Inr (vs ! i), ss ! Suc i)
            \<and> (\<exists>outs fb. trace (ss ! Suc i) = trace (ss ! i) @ exec_events a (xs ! i) 0 outs @ fb
                 \<and> (fb = [] \<or> (\<exists>e. fb = [EvFallback a (maxRetries n - 1) (xs ! i) e
                                           (Inr (vs ! i))]))))
      \<and> (if length vs = length xs then r = Inr vs \<and> s' = last ss
          else \<exists>e. r = Inl e \<and> Node_exec H a (xs ! length vs) (last ss) = (Inl e, s'))"
  using assms
proof (induction xs arbitrary: s r s' n)
  case Nil
  then show ?case by (intro exI[of _ "[]"] exI[of _ "[s]"]) simp
next
  case (Cons x xs)
  obtain r1 s1 where n1: "Node_exec H a x s = (r1, s1)" by (cases "Node_exec H a x s")
  show ?case
  proof (cases r1)
    case (Inl e)
    with Cons.prems n1 have "r = Inl e" "s' = s1" by simp_all
    then show ?thesis
      using n1 Inl by (intro exI[of _ "[]"] exI[of _ "[s]"]) simp
  next
    case (Inr v)
    obtain r2 s2 where m2: "map_exec H a xs s1 = (r2, s2)" by (cases "map_exec H a xs s1")
    from Node_exec_node[OF Cons.prems(2) n1] obtain c where
      nd: "node_at (heap s1) a = Some (n\<lparr>curRetry := c\<rparr>)" by blast
    from Node_exec_trace[OF Cons.prems(2) n1] Inr
    have tr0: "\<exists>outs fb. trace s1 = trace s @ exec_events a x 0 outs @ fb
        \<and> (fb = [] \<or> (\<exists>e. fb = [EvFallback a (maxRetries n - 1) x e (Inr v)]))"
      by simp
    from Cons.IH[OF m2 nd] obtain vs ss where
      c: "length ss = Suc (length vs)" "length vs \<le> length xs" "ss ! 0 = s1"
      "\<forall>i < length vs.
            Node_exec H a (xs ! i) (ss ! i) = (Inr (vs ! i), ss ! Suc i)
            \<and> (\<exists>outs fb. trace (ss ! Suc i) = trace (ss ! i) @ exec_events a (xs ! i) 0 outs @ fb
                 \<and> (fb = [] \<or> (\<exists>e. fb = [EvFallback a (maxRetries n - 1) (xs ! i) e
                                           (Inr (vs ! i))])))"
      "if length vs = length xs then r2 = Inr vs \<and> s2 = last ss
          else \<exists>e. r2 = Inl e \<and> Node_exec H a (xs ! length vs) (last ss) = (Inl e, s2)"
      by auto
    have ne: "ss \<noteq> []" using c(1) by auto
    have res: "(r, s') = (case r2 of Inl e \<Rightarrow> (Inl e, s2) | Inr vs \<Rightarrow> (Inr (v # vs), s2))"
      using Cons.prems n1 Inr m2 by (simp split: sum.splits)
    have chain: "\<forall>i < length (v # vs).
        Node_exec H a ((x # xs) ! i) ((s # ss) ! i) = (Inr ((v # vs) ! i), (s # ss) ! Suc i)
        \<and> (\<exists>outs fb. trace ((s # ss) ! Suc i)
                 = trace ((s # ss) ! i) @ exec_events a ((x # xs) ! i) 0 outs @ fb
              \<and> (fb = [] \<or> (\<exists>e. fb = [EvFallback a (maxRetries n - 1) ((x # xs) ! i) e
                                        (Inr ((v # vs) ! i))])))"
    proof (intro allI impI)
      fix i assume il: "i < length (v # vs)"
      show "Node_exec H a ((x # xs) ! i) ((s # ss) ! i) = (Inr ((v # vs) ! i), (s # ss) ! Suc i)
        \<and> (\<exists>outs fb. trace ((s # ss) ! Suc i)
                 = trace ((s # ss) ! i) @ exec_events a ((x # xs) ! i) 0 outs @ fb
              \<and> (fb = [] \<or> (\<exists>e. fb = [EvFallback a (maxRetries n - 1) ((x # xs) ! i) e
                                        (Inr ((v # vs) ! i))])))"
      proof (cases i)
        case 0
        then show ?thesis using c(3) n1 Inr tr0 by simp
      next
        case (Suc j)
        then show ?thesis using c(4) il by simp
      qed
    qed
    have fin: "if length (v # vs) = length (x # xs) then r = Inr (v # vs) \<and> s' = last (s # ss)
          else \<exists>e. r = Inl e
                 \<and> Node_exec H a ((x # xs) ! length (v # vs)) (last (s # ss)) = (Inl e, s')"
      using c(5) res ne by (auto split: if_splits)
    show ?thesis
      using c(1,2) chain fin
      by (intro exI[of _ "v # vs"] exI[of _ "s # ss"]) simp
  qed
qed

text \<open>
  C5, as the specification states it, says that any input that is not an array is met
  with a warning and a one-element result. \<open>BatchNode._exec\<close> first returns \<open>[]\<close> for
  every falsy input: for \<open>null\<close> no warning is emitted, \<open>exec\<close> is not called and
  the result is the empty array.
\<close>

theorem BatchNode_exec_null_counterexample:
  "BatchNode_exec (\<lambda>i. echo_hooks) 0 JNull batch_state = (Inr (JArr []), batch_state)"
  by (simp add: BatchNode_exec_def)

text \<open>
  C5 (amended): a falsy input gives \<open>[]\<close> at once, without a warning and without a call
  of \<open>exec\<close>. A truthy input that is not an array gives one warning and then the
  one-element array of its retried result (or the throw of that run). An array
  \<open>[x1, \<dots>, xn]\<close> is run element by element, in input order, each through
  \<open>Node._exec\<close>, whose attempts are counted from 0 again for every element: either
  all \<open>n\<close> runs return and the result is the array of their \<open>n\<close> results in input
  order, or the first run that throws ends the call with its error, the later elements
  not being run.
\<close>

theorem BatchNode_exec_cases:
  "(\<not> truthy items \<longrightarrow> BatchNode_exec H a items s = (Inr (JArr []), s))
   \<and> (truthy items \<and> \<not> isArray items \<longrightarrow>
        BatchNode_exec H a items s =
          (case Node_exec H a items
                  (warn (''BatchNode expected an array but received '' @ typeof items) s) of
             (Inl e, s1) \<Rightarrow> (Inl e, s1)
           | (Inr v, s1) \<Rightarrow> (Inr (JArr [v]), s1)))
   \<and> (\<forall>r s' n. node_at (heap s) a = Some n \<and> BatchNode_exec H a (JArr xs) s = (r, s') \<longrightarrow>
        (\<exists>vs ss. length ss = Suc (length vs) \<and> length vs \<le> length xs \<and> ss ! 0 = s
           \<and> (\<forall>i < length vs.
                 Node_exec H a (xs ! i) (ss ! i) = (Inr (vs ! i), ss ! Suc i)
                 \<and> (\<exists>outs fb. trace (ss ! Suc i)
                        = trace (ss ! i) @ exec_events a (xs ! i) 0 outs @ fb
                      \<and> (fb = [] \<or> (\<exists>e. fb = [EvFallback a (maxRetries n - 1) (xs ! i) e
                                                (Inr (vs ! i))]))))
           \<and> (if length vs = length xs then r = Inr (JArr vs) \<and> s' = last ss
               else \<exists>e. r = Inl e
                      \<and> Node_exec H a (xs ! length vs) (last ss) = (Inl e, s'))))"
proof (intro conjI allI impI)
  show "BatchNode_exec H a items s = (Inr (JArr []), s)" if "\<not> truthy items"
    using that by (simp add: BatchNode_exec_def)
  show "BatchNode_exec H a items s =
          (case Node_exec H a items
                  (warn (''BatchNode expected an array but received '' @ typeof items) s) of
             (Inl e, s1) \<Rightarrow> (Inl e, s1)
           | (Inr v, s1) \<Rightarrow> (Inr (JArr [v]), s1))" if "truthy items \<and> \<not> isArray items"
    using that by (cases items) (simp_all add: BatchNode_exec_def)
  fix r s' n
  assume asm: "node_at (heap s) a = Some n \<and> BatchNode_exec H a (JArr xs) s = (r, s')"
  then have nd: "node_at (heap s) a = Some n" and b: "BatchNode_exec H a (JArr xs) s = (r, s')"
    by simp_all
  obtain r1 s1 where m: "map_exec H a xs s = (r1, s1)" by (cases "map_exec H a xs s")
  from b m have rs: "s' = s1" "r = (case r1 of Inl e \<Rightarrow> Inl e | Inr vs \<Rightarrow> Inr (JArr vs))"
    by (auto simp: BatchNode_exec_def split: sum.splits)
  from map_exec_chain[OF m nd] obtain vs ss where
    c: "length ss = Suc (length vs)" "length vs \<le> length xs" "ss ! 0 = s"
      "\<forall>i < length vs.
            Node_exec H a (xs ! i) (ss ! i) = (Inr (vs ! i), ss ! Suc i)
            \<and> (\<exists>outs fb. trace (ss ! Suc i) = trace (ss ! i) @ exec_events a (xs ! i) 0 outs @ fb
                 \<and> (fb = [] \<or> (\<exists>e. fb = [EvFallback a (maxRetries n - 1) (xs ! i) e
                                           (Inr (vs ! i))])))"
      "if length vs = length xs then r1 = Inr vs \<and> s1 = last ss
          else \<exists>e. r1 = Inl e \<and> Node_exec H a (xs ! length vs) (last ss) = (Inl e, s1)"
    by auto
  have fin: "if length vs = length xs then r = Inr (JArr vs) \<and> s' = last ss
               else \<exists>e. r = Inl e \<and> Node_exec H a (xs ! length vs) (last ss) = (Inl e, s')"
    using c(5) rs by (auto split: if_splits)
  show "\<exists>vs ss. length ss = Suc (length vs) \<and> length vs \<le> length xs \<and> ss ! 0 = s
           \<and> (\<forall>i < length vs.
                 Node_exec H a (xs ! i) (ss ! i) = (Inr (vs ! i), ss ! Suc i)
                 \<and> (\<exists>outs fb. trace (ss ! Suc i)
                        = trace (ss ! i) @ exec_events a (xs ! i) 0 outs @ fb
                      \<and> (fb = [] \<or> (\<exists>e. fb = [EvFallback a (maxRetries n - 1) (xs ! i) e
                                                (Inr (vs ! i))]))))
           \<and> (if length vs = length xs then r = Inr (JArr vs) \<and> s' = last ss
               else \<exists>e. r = Inl e
                      \<and> Node_exec H a (xs ! length vs) (last ss) = (Inl e, s'))"
    using c(1-4) fin by blast
qed

lemma batch_eval:
  "BatchNode_exec (\<lambda>i. echo_hooks) 0 (JArr [JNum 7, JStr ''x'']) batch_state
     = (Inr (JArr [JNum 7, JStr ''x'']),
        batch_state \<lparr> trace := [EvExec 0 0 (JNum 7) (Inr (JNum 7)),
                               EvExec 0 0 (JStr ''x'') (Inr (JStr ''x''))] \<rparr>)"
  by (simp add: BatchNode_exec_def Node_exec_def retry_loop.simps call_exec_def
        echo_hooks_def default_hooks_def example_node_def set_curRetry_def
        batch_state_def initial_state_def update_node_def node_at_def obj_at_def
        curRetry_of_def record_event_def)

theorem BatchNode_exec_cases_witness:
  "truthy (JNum 7) \<and> \<not> isArray (JNum 7)
   \<and> BatchNode_exec (\<lambda>i. echo_hooks) 0 (JNum 7) batch_state =
       (case Node_exec (\<lambda>i. echo_hooks) 0 (JNum 7)
               (warn (''BatchNode expected an array but received '' @ typeof (JNum 7))
                  batch_state) of
          (Inl e, s1) \<Rightarrow> (Inl e, s1)
        | (Inr v, s1) \<Rightarrow> (Inr (JArr [v]), s1))
   \<and> fst (BatchNode_exec (\<lambda>i. echo_hooks) 0 (JArr [JNum 7, JStr ''x'']) batch_state)
       = Inr (JArr [JNum 7, JStr ''x''])
   \<and> trace (snd (BatchNode_exec (\<lambda>i. echo_hooks) 0 (JArr [JNum 7, JStr ''x'']) batch_state))
       = [EvExec 0 0 (JNum 7) (Inr (JNum 7)), EvExec 0 0 (JStr ''x'') (Inr (JStr ''x''))]"
  using BatchNode_exec_cases[of "JNum 7" "\<lambda>i. echo_hooks" 0 batch_state "[]"]
  by (simp add: batch_eval)

subsection \<open>Asynchronous nodes on the synchronous path\<close>

text \<open>
  C7: for a node of class \<open>AsyncNode\<close>, \<open>AsyncBatchNode\<close> or
  \<open>AsyncParallelBatchNode\<close>, \<open>_run\<close> throws and leaves the state as it was, so that no
  lifecycle method is called; \<open>run\<close>, which may first warn about successors, throws the
  same error with the trace, the world and the store unchanged.
\<close>

theorem AsyncNode_run_rejects:
  assumes "node_at (heap s) a = Some n" and "is_async_node_class (cls n)"
  shows "node_run H (Suc k) a shared s = Some (Inl async_run_error, s)
     \<and> (succ_at (heap s) (successors n) \<noteq> None \<longrightarrow>
          (\<exists>s'. run H (Suc k) a shared s = Some (Inl async_run_error, s')
             \<and> trace s' = trace s \<and> world s' = world s \<and> heap s' = heap s))"
  using assms
  by (auto simp: run_step_def AsyncNode_run_def run_def is_async_node_class_def)

lemma async_state_node:
  "node_at (heap async_state) 0 = Some (example_node AsyncNode 1)"
  "is_async_node_class (cls (example_node AsyncNode 1))"
  "succ_at (heap async_state) (successors (example_node AsyncNode 1)) \<noteq> None"
  by (simp_all add: async_state_def initial_state_def node_at_def succ_at_def obj_at_def
      example_node_def is_async_node_class_def)

theorem AsyncNode_run_rejects_witness:
  "node_at (heap async_state) 0 = Some (example_node AsyncNode 1)
   \<and> is_async_node_class (cls (example_node AsyncNode 1))
   \<and> node_run (\<lambda>i. echo_hooks) (Suc 0) 0 JNull async_state = Some (Inl async_run_error, async_state)
   \<and> succ_at (heap async_state) (successors (example_node AsyncNode 1)) \<noteq> None
   \<and> (\<exists>s'. run (\<lambda>i. echo_hooks) (Suc 0) 0 JNull async_state = Some (Inl async_run_error, s')
         \<and> trace s' = trace async_state)"
  using AsyncNode_run_rejects[OF async_state_node(1,2), of "\<lambda>i. echo_hooks" 0 JNull]
    async_state_node
  by blast

subsection \<open>What a run may touch\<close>

lemma frame_refl: "frame N s s"
  by (simp add: frame_def)

lemma frame_trans: "frame N s1 s2 \<Longrightarrow> frame N s2 s3 \<Longrightarrow> frame N s1 s3"
  by (auto simp: frame_def)

lemma frame_same: "heap s' = heap s \<Longrightarrow> trace s' = trace s \<Longrightarrow> frame N s s'"
  by (simp add: frame_def)

lemma frame_warn: "frame N s (warn m s)"
  by (simp add: frame_same)

lemma frame_record: "N \<le> event_this ev \<Longrightarrow> frame N s (record_event ev s)"
  by (simp add: frame_def record_event_def)

lemma take_update_node: "N \<le> a \<Longrightarrow> take N (update_node a f h) = take N h"
  by (simp add: update_node_def split: option.splits)

lemma length_update_node [simp]: "length (update_node a f h) = length h"
  by (simp add: update_node_def split: option.splits)

lemma frame_update_node:
  "N \<le> a \<Longrightarrow> heap s' = update_node a f (heap s) \<Longrightarrow> trace s' = trace s \<Longrightarrow> frame N s s'"
  by (simp add: frame_def take_update_node)

lemma frame_alloc:
  "N \<le> length (heap s) \<Longrightarrow> heap s' = heap s @ obs \<Longrightarrow> trace s' = trace s \<Longrightarrow> frame N s s'"
  by (simp add: frame_def)

lemma frame_length: "frame N s s' \<Longrightarrow> N \<le> length (heap s) \<Longrightarrow> N \<le> length (heap s')"
  by (simp add: frame_def)

lemma frame_call_prep:
  "call_prep hk this shared s = (r, s1) \<Longrightarrow> N \<le> this \<Longrightarrow> frame N s s1"
  by (auto simp: call_prep_def frame_def record_event_def split: prod.splits)

lemma frame_call_post:
  "call_post hk this shared p e s = (r, s1) \<Longrightarrow> N \<le> this \<Longrightarrow> frame N s s1"
  by (auto simp: call_post_def frame_def record_event_def split: prod.splits)

lemma frame_call_exec:
  "call_exec hk this p s = (r, s1) \<Longrightarrow> N \<le> this \<Longrightarrow> frame N s s1"
  by (auto simp: call_exec_def frame_def record_event_def split: prod.splits)

lemma frame_call_execFallback:
  "call_execFallback hk this p e s = (r, s1) \<Longrightarrow> N \<le> this \<Longrightarrow> frame N s s1"
  by (auto simp: call_execFallback_def frame_def record_event_def split: prod.splits)

lemma frame_next_attempt:
  "N \<le> this \<Longrightarrow>
   frame N s (set_curRetry this j (if wt > 0 then schedule_noop ms (warn m s) else s))"
  by (rule frame_update_node[where a = this and f = "\<lambda>n. n\<lparr>curRetry := j\<rparr>"])
     (simp_all add: set_curRetry_def)

lemma retry_loop_frame:
  assumes "retry_loop hk a mx wt i p s = (r, s')" and "N \<le> a"
  shows "frame N s s'"
  using assms
proof (induction hk a mx wt i p s arbitrary: r s' rule: retry_loop.induct)
  case (1 hk this mx wt i prepRes s)
  show ?case
  proof (cases "i < mx")
    case False
    with "1.prems" show ?thesis by (simp add: retry_loop_done frame_refl)
  next
    case True
    obtain r1 s1 where ce: "call_exec hk this prepRes s = (r1, s1)"
      by (cases "call_exec hk this prepRes s")
    note f1 = frame_call_exec[OF ce "1.prems"(2)]
    show ?thesis
    proof (cases r1)
      case (Inr v)
      with "1.prems" ce True have "s' = s1" by (simp add: retry_loop_success)
      then show ?thesis using f1 by simp
    next
      case (Inl e)
      show ?thesis
      proof (cases "i = mx - 1")
        case last: True
        from "1.prems" ce Inl True last
        have fb: "call_execFallback hk this prepRes e s1 = (r, s')"
          using retry_loop_last[of i mx hk this prepRes s e s1 wt] by simp
        show ?thesis
          using frame_trans[OF f1 frame_call_execFallback[OF fb "1.prems"(2)]] .
      next
        case more: False
        let ?s2 = "set_curRetry this (i + 1)
                    (if wt > 0 then schedule_noop (wt * 1000) (warn sync_wait_message s1)
                     else s1)"
        from "1.prems" ce Inl True more
        have rec: "retry_loop hk this mx wt (i + 1) prepRes ?s2 = (r, s')"
          using retry_loop_again[of i mx hk this prepRes s e s1 wt] by simp
        have f2: "frame N s1 ?s2"
          by (rule frame_next_attempt[OF "1.prems"(2)])
        from "1.IH"[OF True ce[symmetric] _ more rec "1.prems"(2)] Inl
        have f3: "frame N ?s2 s'" by simp
        show ?thesis
          using frame_trans[OF f1 frame_trans[OF f2 f3]] .
      qed
    qed
  qed
qed

lemma Node_exec_frame:
  assumes "Node_exec H a p s = (r, s')" and "N \<le> a"
  shows "frame N s s'"
proof (cases "node_at (heap s) a")
  case None
  with assms show ?thesis by (simp add: Node_exec_def frame_refl)
next
  case (Some n)
  with assms have rl:
    "retry_loop (H (impl n)) a (maxRetries n) (wait n) 0 p (set_curRetry a 0 s) = (r, s')"
    by (simp add: Node_exec_def)
  have f0: "frame N s (set_curRetry a 0 s)"
    by (rule frame_update_node[where a = a and f = "\<lambda>n. n\<lparr>curRetry := 0\<rparr>"])
       (simp_all add: set_curRetry_def assms(2))
  show ?thesis
    using frame_trans[OF f0 retry_loop_frame[OF rl assms(2)]] .
qed

lemma map_exec_frame:
  assumes "map_exec H a xs s = (r, s')" and "N \<le> a"
  shows "frame N s s'"
  using assms
proof (induction xs arbitrary: s r s')
  case Nil
  then show ?case by (simp add: frame_refl)
next
  case (Cons x xs)
  obtain r1 s1 where n1: "Node_exec H a x s = (r1, s1)" by (cases "Node_exec H a x s")
  note f1 = Node_exec_frame[OF n1 Cons.prems(2)]
  show ?case
  proof (cases r1)
    case (Inl e)
    with Cons.prems n1 have "s' = s1" by simp
    then show ?thesis using f1 by simp
  next
    case (Inr v)
    obtain r2 s2 where m2: "map_exec H a xs s1 = (r2, s2)" by (cases "map_exec H a xs s1")
    with Cons.prems n1 Inr have "s' = s2" by (auto split: sum.splits)
    then show ?thesis using frame_trans[OF f1 Cons.IH[OF m2 Cons.prems(2)]] by simp
  qed
qed

lemma BatchNode_exec_frame:
  assumes "BatchNode_exec H a items s = (r, s')" and "N \<le> a"
  shows "frame N s s'"
proof (cases "truthy items")
  case False
  with assms show ?thesis by (simp add: BatchNode_exec_def frame_refl)
next
  case True
  show ?thesis
  proof (cases "isArray items")
    case arr: True
    then obtain xs where xs: "items = JArr xs" by (cases items) simp_all
    obtain r1 s1 where m: "map_exec H a xs s = (r1, s1)" by (cases "map_exec H a xs s")
    with assms xs have "s' = s1" by (auto simp: BatchNode_exec_def split: sum.splits)
    then show ?thesis using map_exec_frame[OF m assms(2)] by simp
  next
    case False
    let ?s0 = "warn (''BatchNode expected an array but received '' @ typeof items) s"
    obtain r1 s1 where m: "Node_exec H a items ?s0 = (r1, s1)"
      by (cases "Node_exec H a items ?s0")
    with assms True False have "s' = s1"
      by (cases items) (auto simp: BatchNode_exec_def split: sum.splits)
    then show ?thesis
      using frame_trans[OF frame_warn Node_exec_frame[OF m assms(2)]] by simp
  qed
qed

lemma dispatch_exec_frame:
  assumes "dispatch_exec H n a p s = (r, s')" and "N \<le> a"
  shows "frame N s s'"
  using assms Node_exec_frame BatchNode_exec_frame frame_call_exec
  by (auto simp: dispatch_exec_def BaseNode_exec_def split: if_splits)

lemma BaseNode_run_frame:
  assumes "BaseNode_run H n a shared s = (r, s')" and "N \<le> a"
  shows "frame N s s'"
proof -
  obtain r1 s1 where p: "call_prep (H (impl n)) a shared s = (r1, s1)"
    by (cases "call_prep (H (impl n)) a shared s")
  note f1 = frame_call_prep[OF p assms(2)]
  show ?thesis
  proof (cases r1)
    case (Inl e)
    with assms p have "s' = s1" by (simp add: BaseNode_run_def)
    then show ?thesis using f1 by simp
  next
    case (Inr pr)
    obtain r2 s2 where e: "dispatch_exec H n a pr s1 = (r2, s2)"
      by (cases "dispatch_exec H n a pr s1")
    note f2 = dispatch_exec_frame[OF e assms(2)]
    show ?thesis
    proof (cases r2)
      case (Inl e')
      with assms p Inr e have "s' = s2" by (simp add: BaseNode_run_def)
      then show ?thesis using frame_trans[OF f1 f2] by simp
    next
      case er: (Inr ev)
      with assms p Inr e have "call_post (H (impl n)) a shared pr ev s2 = (r, s')"
        by (simp add: BaseNode_run_def)
      from frame_call_post[OF this assms(2)]
      show ?thesis using frame_trans[OF f1 frame_trans[OF f2]] by blast
    qed
  qed
qed

lemma getNextNode_same:
  assumes "getNextNode a act s = (r, s')"
  shows "heap s' = heap s" "trace s' = trace s"
  using assms
  by (auto simp: getNextNode_def Let_def split: option.splits if_splits)

lemma setParams_frame:
  assumes "setParams a p s = (r, s')" and "N \<le> a"
  shows "frame N s s'"
  using assms
  by (auto simp: setParams_def frame_refl split: if_splits
      intro: frame_update_node[where a = a and f = "\<lambda>n. n\<lparr>params := p\<rparr>"])

lemma shallowCopy_frame:
  assumes "shallowCopy v s = (c, s')" and "N \<le> length (heap s)"
  shows "frame N s s'"
  using assms
  by (auto simp: shallowCopy_def frame_refl split: if_splits jsval.splits option.splits
      intro: frame_alloc)

lemma shallowCopy_member_frame:
  assumes "shallowCopy_member m s = (c, s')" and "N \<le> length (heap s)"
  shows "frame N s s'"
  using assms shallowCopy_frame
  by (auto simp: shallowCopy_member_def frame_refl split: member.splits prod.splits
      intro: frame_alloc)

lemma shallowCopy_member_fresh:
  assumes "shallowCopy_member (Val (JRef a)) s = (Val (JRef ca), s')"
    and "node_at (heap s') ca \<noteq> None" and "node_at (heap s) a = None \<or> a < length (heap s)"
  shows "ca = length (heap s) \<or> (ca = a \<and> s' = s)"
  using assms
  by (auto simp: shallowCopy_member_def shallowCopy_def split: option.splits if_splits)

lemma shallowCopy_member_ref:
  assumes "shallowCopy_member (Val (JRef a)) s = (Val (JRef ca), s')"
  shows "(obj_at (heap s) a = None \<and> ca = a \<and> s' = s)
       \<or> (\<exists>ob. obj_at (heap s) a = Some ob \<and> ca = length (heap s)
              \<and> heap s' = heap s @ [ob] \<and> trace s' = trace s)"
  using assms
  by (auto simp: shallowCopy_member_def shallowCopy_def split: option.splits if_splits)

lemma orchestrate_loop_frame:
  assumes "runner_ok rn" and "orchestrate_loop rn k cur shared p la s = Some (r, s')"
    and "N \<le> length (heap s)"
  shows "frame N s s'"
  using assms(2,3)
proof (induction k arbitrary: cur la s)
  case 0
  then show ?case by simp
next
  case (Suc k)
  show ?case
  proof (cases "truthy_member cur")
    case False
    with Suc.prems show ?thesis by (simp add: frame_refl)
  next
    case True
    obtain c s1 where sc: "shallowCopy_member cur s = (c, s1)"
      by (cases "shallowCopy_member cur s")
    note f1 = shallowCopy_member_frame[OF sc Suc.prems(2)]
    note step = Suc.prems(1)[simplified orchestrate_loop.simps, simplified True sc, simplified]
    show ?thesis
    proof (cases "\<exists>a ca. cur = Val (JRef a) \<and> c = Val (JRef ca)")
      case False
      then have "s' = s1"
        using step by (auto split: member.splits jsval.splits)
      then show ?thesis using f1 by simp
    next
      case True
      then obtain a ca where ac: "cur = Val (JRef a)" "c = Val (JRef ca)" by blast
      show ?thesis
      proof (cases "node_at (heap s1) ca")
        case None
        then have "s' = s1" using step ac by simp
        then show ?thesis using f1 by simp
      next
        case (Some cn)
        from shallowCopy_member_ref[OF sc[unfolded ac]] Some
        have ca: "ca = length (heap s)"
          by (auto simp: node_at_def)
        then have Nca: "N \<le> ca" using Suc.prems(2) by simp
        obtain r2 s2 where sp: "setParams ca p s1 = (r2, s2)" by (cases "setParams ca p s1")
        note f2 = setParams_frame[OF sp Nca]
        show ?thesis
        proof (cases r2)
          case (Inl e)
          then have "s' = s2" using step ac Some sp by simp
          then show ?thesis using frame_trans[OF f1 f2] by simp
        next
          case (Inr u)
          note f12 = frame_trans[OF f1 f2]
          have N2: "N \<le> length (heap s2)"
            using frame_length[OF f12 Suc.prems(2)] .
          show ?thesis
          proof (cases "rn ca shared s2")
            case None
            then show ?thesis using step ac Some sp Inr by simp
          next
            case (Some rs3)
            obtain r3 s3 where rs3: "rs3 = (r3, s3)" by (cases rs3)
            have f3: "frame N s2 s3"
              using assms(1) Some rs3 Nca N2 unfolding runner_ok_def by blast
            note f123 = frame_trans[OF f12 f3]
            show ?thesis
            proof (cases r3)
              case (Inl e)
              then have "s' = s3" using step ac \<open>node_at (heap s1) ca = Some cn\<close> sp Inr Some rs3
                by simp
              then show ?thesis using f123 by simp
            next
              case act: (Inr act)
              obtain r4 s4 where g: "getNextNode a act s3 = (r4, s4)"
                by (cases "getNextNode a act s3")
              have f4: "frame N s3 s4"
                using getNextNode_same[OF g] by (simp add: frame_same)
              note f1234 = frame_trans[OF f123 f4]
              show ?thesis
              proof (cases r4)
                case (Inl e)
                then have "s' = s4"
                  using step ac \<open>node_at (heap s1) ca = Some cn\<close> sp Inr Some rs3 act g by simp
                then show ?thesis using f1234 by simp
              next
                case nx: (Inr nxt)
                have rec: "orchestrate_loop rn k nxt shared p act s4 = Some (r, s')"
                  using step ac \<open>node_at (heap s1) ca = Some cn\<close> sp Inr Some rs3 act g nx
                  by simp
                have N4: "N \<le> length (heap s4)"
                  using frame_length[OF f1234 Suc.prems(2)] .
                show ?thesis
                  using frame_trans[OF f1234 Suc.IH[OF rec N4]] .
              qed
            qed
          qed
        qed
      qed
    qed
  qed
qed

lemma new_object_frame:
  assumes "new_object kvs s = (p, s')" and "N \<le> length (heap s)"
  shows "frame N s s'"
  using assms by (auto simp: new_object_def intro: frame_alloc)

lemma Flow_orchestrate_frame:
  assumes "runner_ok rn" and "Flow_orchestrate rn k this shared ps s = Some (r, s')"
    and "N \<le> length (heap s)"
  shows "frame N (record_event (EvOrchestrate this ps) s) s'"
proof -
  let ?s0 = "record_event (EvOrchestrate this ps) s"
  have h0: "heap ?s0 = heap s" by (simp add: record_event_def)
  have N0: "N \<le> length (heap ?s0)" using assms(3) h0 by simp
  show ?thesis
  proof (cases "node_at (heap s) this")
    case None
    with assms(2) h0 show ?thesis by (simp add: Flow_orchestrate_def Let_def frame_refl)
  next
    case (Some n)
    show ?thesis
    proof (cases "truthy (startNode n)")
      case False
      with assms(2) Some h0 have "s' = warn ''Flow has no start node'' ?s0"
        by (simp add: Flow_orchestrate_def Let_def)
      then show ?thesis by (simp add: frame_warn)
    next
      case True
      obtain p s1 where ps: "(if truthy ps then (ps, ?s0)
                   else new_object (spread_into [] (own_props (heap ?s0) (params n))) ?s0) = (p, s1)"
        by (cases "(if truthy ps then (ps, ?s0)
                   else new_object (spread_into [] (own_props (heap ?s0) (params n))) ?s0)")
      have f1: "frame N ?s0 s1"
        using ps N0 by (auto simp: frame_refl split: if_splits intro: new_object_frame)
      have lp: "orchestrate_loop rn k (Val (startNode n)) shared p JNull s1 = Some (r, s')"
        using assms(2) Some True ps h0 by (simp add: Flow_orchestrate_def Let_def)
      have N1: "N \<le> length (heap s1)" using frame_length[OF f1 N0] .
      show ?thesis
        using frame_trans[OF f1 orchestrate_loop_frame[OF assms(1) lp N1]] .
    qed
  qed
qed

lemma Flow_orchestrate_frame_local:
  assumes "runner_ok rn" and "Flow_orchestrate rn k this shared ps s = Some (r, s')"
    and "N \<le> length (heap s)" and "N \<le> this"
  shows "frame N s s'"
  using frame_trans[OF frame_record Flow_orchestrate_frame[OF assms(1-3)]] assms(4)
  by simp

lemma Flow_run_frame:
  assumes "runner_ok rn" and "Flow_run H rn k n this shared s = Some (r, s')"
    and "N \<le> length (heap s)" and "N \<le> this"
  shows "frame N s s'"
proof -
  obtain r1 s1 where p: "call_prep (H (impl n)) this shared s = (r1, s1)"
    by (cases "call_prep (H (impl n)) this shared s")
  note f1 = frame_call_prep[OF p assms(4)]
  have N1: "N \<le> length (heap s1)" using frame_length[OF f1 assms(3)] .
  show ?thesis
  proof (cases r1)
    case (Inl e)
    with assms(2) p have "s' = s1" by (simp add: Flow_run_def)
    then show ?thesis using f1 by simp
  next
    case (Inr pr)
    show ?thesis
    proof (cases "Flow_orchestrate rn k this shared JNull s1")
      case None
      with assms(2) p Inr show ?thesis by (simp add: Flow_run_def)
    next
      case (Some rs2)
      obtain r2 s2 where rs2: "rs2 = (r2, s2)" by (cases rs2)
      note f2 = Flow_orchestrate_frame_local[OF assms(1) Some[unfolded rs2] N1 assms(4)]
      show ?thesis
      proof (cases r2)
        case (Inl e)
        with assms(2) p Inr Some rs2 have "s' = s2" by (simp add: Flow_run_def)
        then show ?thesis using frame_trans[OF f1 f2] by simp
      next
        case o: (Inr o1)
        with assms(2) p Inr Some rs2
        have "call_post (H (impl n)) this shared pr o1 s2 = (r, s')"
          by (simp add: Flow_run_def)
        from frame_call_post[OF this assms(4)]
        show ?thesis using frame_trans[OF f1 frame_trans[OF f2]] by blast
      qed
    qed
  qed
qed

lemma batch_loop_frame:
  assumes "runner_ok rn" and "batch_loop rn k this shared bps s = Some (r, s')"
    and "N \<le> length (heap s)" and "N \<le> this"
  shows "frame N s s'"
  using assms(2,3)
proof (induction bps arbitrary: s)
  case Nil
  then show ?case by (simp add: frame_refl)
next
  case (Cons bp bps)
  let ?kvs = "spread_into (spread_into [] (own_props (heap s) (case node_at (heap s) this of
                                                                   Some n \<Rightarrow> params n
                                                                 | None \<Rightarrow> JUndefined)))
                (own_props (heap s) bp)"
  obtain p s1 where no: "new_object ?kvs s = (p, s1)" by (cases "new_object ?kvs s")
  note f1 = new_object_frame[OF no Cons.prems(2)]
  have N1: "N \<le> length (heap s1)" using frame_length[OF f1 Cons.prems(2)] .
  show ?case
  proof (cases "Flow_orchestrate rn k this shared p s1")
    case None
    with Cons.prems(1) no show ?thesis by (simp add: sub_run_def)
  next
    case (Some rs2)
    obtain r2 s2 where rs2: "rs2 = (r2, s2)" by (cases rs2)
    note f2 = Flow_orchestrate_frame_local[OF assms(1) Some[unfolded rs2] N1 assms(4)]
    have N2: "N \<le> length (heap s2)" using frame_length[OF f2 N1] .
    show ?thesis
    proof (cases r2)
      case (Inl e)
      with Cons.prems(1) no Some rs2 have "s' = s2" by (simp add: sub_run_def)
      then show ?thesis using frame_trans[OF f1 f2] by simp
    next
      case (Inr act)
      with Cons.prems(1) no Some rs2
      have "batch_loop rn k this shared bps s2 = Some (r, s')" by (simp add: sub_run_def)
      from Cons.IH[OF this N2]
      show ?thesis using frame_trans[OF f1 frame_trans[OF f2]] by blast
    qed
  qed
qed

lemma BatchFlow_run_frame:
  assumes "runner_ok rn" and "BatchFlow_run H rn k n this shared s = Some (r, s')"
    and "N \<le> length (heap s)" and "N \<le> this"
  shows "frame N s s'"
proof -
  obtain r1 s1 where p: "call_prep (H (impl n)) this shared s = (r1, s1)"
    by (cases "call_prep (H (impl n)) this shared s")
  note f1 = frame_call_prep[OF p assms(4)]
  have N1: "N \<le> length (heap s1)" using frame_length[OF f1 assms(3)] .
  show ?thesis
  proof (cases r1)
    case (Inl e)
    with assms(2) p have "s' = s1" by (simp add: BatchFlow_run_def)
    then show ?thesis using f1 by simp
  next
    case (Inr pr0)
    define pr where "pr = (if truthy pr0 then pr0 else JArr [])"
    show ?thesis
    proof (cases "isArray pr")
      case False
      let ?s2 = "warn (''BatchFlow expected an array from prep() but received '' @ typeof pr) s1"
      from assms(2) p Inr False
      have "call_post (H (impl n)) this shared pr JNull ?s2 = (r, s')"
        by (cases pr) (auto simp: BatchFlow_run_def Let_def pr_def)
      from frame_call_post[OF this assms(4)]
      show ?thesis using frame_trans[OF f1 frame_trans[OF frame_warn]] by blast
    next
      case True
      then obtain bps where bps: "pr = JArr bps" by (cases pr) simp_all
      show ?thesis
      proof (cases "batch_loop rn k this shared bps s1")
        case None
        with assms(2) p Inr bps show ?thesis
          by (simp add: BatchFlow_run_def Let_def pr_def[symmetric])
      next
        case (Some rs2)
        obtain r2 s2 where rs2: "rs2 = (r2, s2)" by (cases rs2)
        note f2 = batch_loop_frame[OF assms(1) Some[unfolded rs2] N1 assms(4)]
        show ?thesis
        proof (cases r2)
          case (Inl e)
          with assms(2) p Inr bps Some rs2 have "s' = s2"
            by (simp add: BatchFlow_run_def Let_def pr_def[symmetric])
          then show ?thesis using frame_trans[OF f1 f2] by simp
        next
          case u: (Inr u)
          with assms(2) p Inr bps Some rs2
          have "call_post (H (impl n)) this shared pr JNull s2 = (r, s')"
            by (simp add: BatchFlow_run_def Let_def pr_def[symmetric])
          from frame_call_post[OF this assms(4)]
          show ?thesis using frame_trans[OF f1 frame_trans[OF f2]] by blast
        qed
      qed
    qed
  qed
qed

lemma run_step_ok:
  assumes "runner_ok rn"
  shows "runner_ok (run_step H k rn)"
  unfolding runner_ok_def
proof (intro allI impI)
  fix N this shared s r s'
  assume a: "run_step H k rn this shared s = Some (r, s') \<and> N \<le> this \<and> N \<le> length (heap s)"
  then have rs: "run_step H k rn this shared s = Some (r, s')" and Nt: "N \<le> this"
    and Nl: "N \<le> length (heap s)" by simp_all
  show "frame N s s'"
  proof (cases "node_at (heap s) this")
    case None
    with rs show ?thesis by (simp add: run_step_def frame_refl)
  next
    case (Some n)
    consider (flow) "cls n = Flow" | (batch) "cls n = BatchFlow"
      | (async) "cls n \<noteq> Flow" "cls n \<noteq> BatchFlow"
          "is_async_node_class (cls n) \<or> is_async_flow_class (cls n)"
      | (base) "cls n \<noteq> Flow" "cls n \<noteq> BatchFlow"
          "\<not> (is_async_node_class (cls n) \<or> is_async_flow_class (cls n))"
      by blast
    then show ?thesis
    proof cases
      case flow
      with rs Some have "Flow_run H rn k n this shared s = Some (r, s')"
        by (simp add: run_step_def)
      then show ?thesis by (rule Flow_run_frame[OF assms _ Nl Nt])
    next
      case batch
      with rs Some have "BatchFlow_run H rn k n this shared s = Some (r, s')"
        by (simp add: run_step_def)
      then show ?thesis by (rule BatchFlow_run_frame[OF assms _ Nl Nt])
    next
      case async
      with rs Some have "s' = s" by (simp add: run_step_def AsyncNode_run_def)
      then show ?thesis by (simp add: frame_refl)
    next
      case base
      with rs Some have "BaseNode_run H n this shared s = (r, s')"
        by (simp add: run_step_def)
      then show ?thesis by (rule BaseNode_run_frame[OF _ Nt])
    qed
  qed
qed

lemma node_run_ok: "runner_ok (node_run H k)"
proof (induction k)
  case 0
  show ?case by (simp add: runner_ok_def)
next
  case (Suc k)
  then show ?case by (simp add: run_step_ok)
qed

subsection \<open>The asynchronous family\<close>









subsection \<open>Calls that are pending together\<close>

lemma pending_from_props:
  "i \<in> set (pending_from k ts)
     \<Longrightarrow> k \<le> i \<and> i - k < length ts \<and> \<not> is_settled (ts ! (i - k))"
proof (induction ts arbitrary: k)
  case Nil
  then show ?case by simp
next
  case (Cons t ts)
  show ?case
  proof (cases "i = k")
    case True
    have "\<not> is_settled t"
    proof
      assume "is_settled t"
      with Cons.prems True have "i \<in> set (pending_from (Suc k) ts)" by simp
      from Cons.IH[OF this] True show False by simp
    qed
    with True show ?thesis by simp
  next
    case False
    with Cons.prems have m: "i \<in> set (pending_from (Suc k) ts)" by (auto split: if_splits)
    from Cons.IH[OF m]
    have "Suc k \<le> i" "i - Suc k < length ts" "\<not> is_settled (ts ! (i - Suc k))"
      by simp_all
    moreover then have "i - k = Suc (i - Suc k)" by simp
    ultimately show ?thesis by simp
  qed
qed

lemma pick_pending:
  assumes "pending ts \<noteq> []"
  shows "pick (pending ts) c < length ts \<and> \<not> is_settled (ts ! pick (pending ts) c)"
proof -
  have "pick (pending ts) c \<in> set (pending ts)"
    using assms by (simp add: pick_def)
  from pending_from_props[OF this[unfolded pending_def]] show ?thesis
    by (simp add: pending_def)
qed

lemma sum_list_map_update:
  "i < length ts
     \<Longrightarrow> sum_list (map f (ts[i := t])) + f (ts ! i) = sum_list (map f ts) + (f t :: nat)"
proof (induction ts arbitrary: i)
  case Nil
  then show ?case by simp
next
  case (Cons a ts)
  then show ?case by (cases i) simp_all
qed

lemma call_execAsync_heap: "call_execAsync hk this item s = (r, s1) \<Longrightarrow> heap s1 = heap s"
  by (auto simp: call_execAsync_def record_event_def split: prod.splits)

lemma call_execFallbackAsync_heap:
  "call_execFallbackAsync hk this item e s = (r, s1) \<Longrightarrow> heap s1 = heap s"
  by (auto simp: call_execFallbackAsync_def record_event_def split: prod.splits)

lemma next_choice_heap: "next_choice s = (c, s1) \<Longrightarrow> heap s1 = heap s \<and> trace s1 = trace s"
  by (auto simp: next_choice_def split: list.splits)

lemma attempt_left:
  assumes "attempt H this item s = (t, s')"
  shows "attempts_left (heap s') this = attempts_left (heap s) this
     \<and> (task_weight t = 0 \<or> (task_weight t = 3 \<and> 0 < attempts_left (heap s) this))"
  using assms
  by (auto simp: attempt_def attempts_left_def split: option.splits if_splits prod.splits
           dest: call_execAsync_heap)

lemma task_next_less:
  assumes "task_next H this item s = (t, s')"
  shows "task_weight t + 2 * attempts_left (heap s') this < 2 + 2 * attempts_left (heap s) this"
proof -
  let ?s1 = "set_curRetry this (curRetry_of (heap s) this + 1) s"
  from assms have a: "attempt H this item ?s1 = (t, s')" by (simp add: task_next_def)
  note al = attempt_left[OF a]
  have le: "attempts_left (heap ?s1) this \<le> attempts_left (heap s) this"
    and lt: "0 < attempts_left (heap ?s1) this
             \<Longrightarrow> attempts_left (heap ?s1) this < attempts_left (heap s) this"
    by (auto simp: attempts_left_def set_curRetry_def update_node_def node_at_def obj_at_def
          curRetry_of_def split: option.splits obj.splits if_splits)
  from al le lt show ?thesis by auto
qed

text \<open>Every resumption of a suspended call lowers the work that is left.\<close>

lemma resume_less:
  assumes "\<not> is_settled t" and "resume H this t s = (t', s')"
  shows "task_weight t' + 2 * attempts_left (heap s') this
           < task_weight t + 2 * attempts_left (heap s) this"
proof (cases t)
  case (AwaitExec item r)
  show ?thesis
  proof (cases r)
    case (Inr v)
    with AwaitExec assms show ?thesis by auto
  next
    case (Inl e)
    show ?thesis
    proof (cases "node_at (heap s) this")
      case None
      with AwaitExec Inl assms show ?thesis by auto
    next
      case (Some n)
      show ?thesis
      proof (cases "curRetry n = maxRetries n - 1")
        case True
        with AwaitExec Inl Some assms show ?thesis
          by (auto split: prod.splits dest: call_execFallbackAsync_heap)
      next
        case False
        show ?thesis
        proof (cases "wait n > 0")
          case True
          with False AwaitExec Inl Some assms show ?thesis by (auto simp: record_event_def)
        next
          case w: False
          with False AwaitExec Inl Some assms have "task_next H this item s = (t', s')" by simp
          from task_next_less[OF this] AwaitExec show ?thesis by simp
        qed
      qed
    qed
  qed
next
  case (AwaitFallback r)
  with assms show ?thesis by auto
next
  case (AwaitTimer item)
  with assms have "task_next H this item s = (t', s')" by simp
  from task_next_less[OF this] AwaitTimer show ?thesis by simp
next
  case (Settled r)
  with assms show ?thesis by simp
qed

termination settle_all
proof (relation "measure (\<lambda>(H, this, ts, rej, s). work_left this ts s)")
  show "wf (measure (\<lambda>(H, this, ts, rej, s). work_left this ts s))" by simp
next
  fix H :: "nat \<Rightarrow> 'w hooks" and this ts and rej :: "jsval option" and s s1 s2 :: "'w state"
    and c t
  assume pe: "pending ts \<noteq> []" and cs: "(c, s1) = next_choice s"
    and ts2: "(t, s2) = resume H this (ts ! pick (pending ts) c) s1"
  let ?i = "pick (pending ts) c"
  from pick_pending[OF pe] have il: "?i < length ts" and ns: "\<not> is_settled (ts ! ?i)" by simp_all
  from cs have h1: "heap s1 = heap s" using next_choice_heap[of s c s1] by simp
  from ts2 have r: "resume H this (ts ! ?i) s1 = (t, s2)" by simp
  from resume_less[OF ns r] h1 sum_list_map_update[OF il, of task_weight t]
  show "((H, this, ts[?i := t], note_rejection rej t, s2), (H, this, ts, rej, s))
          \<in> measure (\<lambda>(H, this, ts, rej, s). work_left this ts s)"
    by (simp add: work_left_def)
qed

declare settle_all.simps [simp del]









lemma call_execAsync_schedule:
  "call_execAsync hk a x (s\<lparr>schedule := sch\<rparr>) =
     (case call_execAsync hk a x s of (r, s1) \<Rightarrow> (r, s1\<lparr>schedule := sch\<rparr>))"
  by (simp add: call_execAsync_def record_event_def split: prod.splits)

lemma call_execFallbackAsync_schedule:
  "call_execFallbackAsync hk a x e (s\<lparr>schedule := sch\<rparr>) =
     (case call_execFallbackAsync hk a x e s of (r, s1) \<Rightarrow> (r, s1\<lparr>schedule := sch\<rparr>))"
  by (simp add: call_execFallbackAsync_def record_event_def split: prod.splits)

lemma next_choice_schedule:
  "next_choice (s\<lparr>schedule := sch\<rparr>) = (case sch of [] \<Rightarrow> 0 | c # cs \<Rightarrow> c, s\<lparr>schedule := tl sch\<rparr>)"
  by (simp add: next_choice_def split: list.splits)

lemma set_curRetry_schedule:
  "set_curRetry a j (s\<lparr>schedule := sch\<rparr>) = (set_curRetry a j s)\<lparr>schedule := sch\<rparr>"
  by (simp add: set_curRetry_def)

lemma record_event_schedule:
  "record_event ev (s\<lparr>schedule := sch\<rparr>) = (record_event ev s)\<lparr>schedule := sch\<rparr>"
  by (simp add: record_event_def)

lemma heap_record_event: "heap (record_event ev s) = heap s"
  by (simp add: record_event_def)

lemma ex_schedule: "\<exists>sch'. s\<lparr>schedule := x\<rparr> = s\<lparr>schedule := sch'\<rparr>"
  by (rule exI[of _ x]) simp

lemma settle_all_settled:
  "settle_all H a [Settled r] rej s = (rej, [Settled r], s)"
  by (simp add: settle_all.simps pending_def)

lemma settle_all_single:
  assumes "\<not> is_settled t"
  shows "settle_all H a [t] rej (s\<lparr>schedule := sch\<rparr>) =
     (case resume H a t (s\<lparr>schedule := tl sch\<rparr>) of
        (t', s2) \<Rightarrow> settle_all H a [t'] (note_rejection rej t') s2)"
  using assms
  by (subst settle_all.simps) (simp add: pending_def pick_def next_choice_schedule)

text \<open>
  A call that is pending alone does what the loop of \<open>AsyncNode._exec\<close> does when it is
  awaited step by step, and a batch of one item under \<open>Promise.all\<close> is that call:
  the two ways of modelling \<open>AsyncNode._exec\<close> agree, up to the entries of the
  schedule that have been used.
\<close>

lemma single_call_as_loop:
  assumes "node_at (heap s) a = Some n" and "curRetry n = i" and "maxRetries n = mx"
    and "wait n = wt" and "H (impl n) = hk"
  shows "\<exists>sch'. (case attempt H a x (s\<lparr>schedule := sch\<rparr>) of
                   (t, s1) \<Rightarrow> settle_all H a [t] None s1) =
           (case async_retry_loop hk a mx wt i x s of
              (r, s') \<Rightarrow> (rejection_of (Settled r), [Settled r], s'\<lparr>schedule := sch'\<rparr>))"
  using assms
proof (induction hk a mx wt i x s arbitrary: n sch rule: async_retry_loop.induct)
  case (1 hk this mx wt i prepRes s)
  note unf = async_retry_loop.simps[of hk this mx wt i prepRes s]
  note node = "1.prems"(1)
  show ?case
  proof (cases "i < mx")
    case False
    then show ?thesis
      using "1.prems" by (simp add: unf attempt_def settle_all_settled ex_schedule)
  next
    case True
    obtain r1 s1 where ce: "call_execAsync hk this prepRes s = (r1, s1)"
      by (cases "call_execAsync hk this prepRes s")
    have h1: "heap s1 = heap s" by (rule call_execAsync_heap[OF ce])
    have att: "attempt H this prepRes (s\<lparr>schedule := sch\<rparr>)
                 = (AwaitExec prepRes r1, s1\<lparr>schedule := sch\<rparr>)"
      using "1.prems" True ce by (simp add: attempt_def call_execAsync_schedule)
    show ?thesis
    proof (cases r1)
      case (Inr v)
      then show ?thesis
        using True ce att by (simp add: unf settle_all_single settle_all_settled note_rejection_def ex_schedule)
    next
      case (Inl e)
      have n1: "node_at (heap (s1\<lparr>schedule := tl sch\<rparr>)) this = Some n"
        using node h1 by simp
      show ?thesis
      proof (cases "i = mx - 1")
        case last: True
        obtain r2 s2 where fb: "call_execFallbackAsync hk this prepRes e s1 = (r2, s2)"
          by (cases "call_execFallbackAsync hk this prepRes e s1")
        have lp: "async_retry_loop hk this mx wt i prepRes s = (r2, s2)"
          unfolding unf using True ce Inl last fb by simp
        have "(case attempt H this prepRes (s\<lparr>schedule := sch\<rparr>) of
                   (t, s1) \<Rightarrow> settle_all H this [t] None s1)
              = (rejection_of (Settled r2), [Settled r2], s2\<lparr>schedule := tl (tl sch)\<rparr>)"
          using att Inl last fb n1 "1.prems"(2-5)
          by (simp add: settle_all_single settle_all_settled note_rejection_def
                call_execFallbackAsync_schedule)
        then show ?thesis
          using lp by (simp add: ex_schedule)
      next
        case more: False
        let ?s1' = "if wt > 0 then record_event (EvSleep this (wt * 1000)) s1 else s1"
        let ?s2 = "set_curRetry this (i + 1) ?s1'"
        have n2: "node_at (heap ?s2) this = Some (n\<lparr>curRetry := i + 1\<rparr>)"
          using node h1
          by (auto simp: set_curRetry_def record_event_def update_node_def node_at_def obj_at_def
                split: if_splits option.splits obj.splits)
        have ih: "\<exists>sch'. (case attempt H this prepRes (?s2\<lparr>schedule := sch0\<rparr>) of
                   (t, s1) \<Rightarrow> settle_all H this [t] None s1) =
           (case async_retry_loop hk this mx wt (i + 1) prepRes ?s2 of
              (r, s') \<Rightarrow> (rejection_of (Settled r), [Settled r], s'\<lparr>schedule := sch'\<rparr>))" for sch0
          using "1.IH"[OF True ce[symmetric] _ more n2, of e sch0] Inl "1.prems"(3-5)
          by simp
        have rej: "rejection_of t = None"
          if "attempt H this prepRes (?s2\<lparr>schedule := sch0\<rparr>) = (t, s3)" for t s3 sch0
          using that n2 by (auto simp: attempt_def split: if_splits prod.splits)
        have cr: "curRetry_of (heap s1) this = i"
          using node h1 "1.prems"(2) by (simp add: curRetry_of_def)
        have loop: "async_retry_loop hk this mx wt i prepRes s
                      = async_retry_loop hk this mx wt (i + 1) prepRes ?s2"
          unfolding unf using True ce Inl more by simp
        show ?thesis
        proof (cases "wt > 0")
          case w: True
          let ?sch0 = "tl (tl sch)"
          obtain t s3 where a2: "attempt H this prepRes (?s2\<lparr>schedule := ?sch0\<rparr>) = (t, s3)"
            by (cases "attempt H this prepRes (?s2\<lparr>schedule := ?sch0\<rparr>)")
          have tn: "task_next H this prepRes
                      ((record_event (EvSleep this (wt * 1000)) s1)\<lparr>schedule := ?sch0\<rparr>) = (t, s3)"
            using a2 w cr
            by (simp add: task_next_def set_curRetry_schedule heap_record_event)
          have "(case attempt H this prepRes (s\<lparr>schedule := sch\<rparr>) of
                   (t, s1) \<Rightarrow> settle_all H this [t] None s1) = settle_all H this [t] None s3"
            using att Inl n1 more w "1.prems"(2-5) tn rej[OF a2]
            by (simp add: settle_all_single note_rejection_def record_event_schedule)
          with ih[of ?sch0] a2 loop show ?thesis by simp
        next
          case w: False
          let ?sch0 = "tl sch"
          obtain t s3 where a2: "attempt H this prepRes (?s2\<lparr>schedule := ?sch0\<rparr>) = (t, s3)"
            by (cases "attempt H this prepRes (?s2\<lparr>schedule := ?sch0\<rparr>)")
          have tn: "task_next H this prepRes (s1\<lparr>schedule := ?sch0\<rparr>) = (t, s3)"
            using a2 w cr by (simp add: task_next_def set_curRetry_schedule)
          have "(case attempt H this prepRes (s\<lparr>schedule := sch\<rparr>) of
                   (t, s1) \<Rightarrow> settle_all H this [t] None s1) = settle_all H this [t] None s3"
            using att Inl n1 more w "1.prems"(2-5) tn rej[OF a2]
            by (simp add: settle_all_single note_rejection_def)
          with ih[of ?sch0] a2 loop show ?thesis by simp
        qed
      qed
    qed
  qed
qed


lemma parallel_exec_single_item:
  "\<exists>sch'. parallel_exec H a [x] s =
     (case AsyncNode_exec H a x s of
        (Inl e, s') \<Rightarrow> (Inl e, s'\<lparr>schedule := sch'\<rparr>)
      | (Inr v, s') \<Rightarrow> (Inr (JArr [v]), s'\<lparr>schedule := sch'\<rparr>))"
proof (cases "node_at (heap s) a")
  case None
  then have "set_curRetry a 0 s = s" by (simp add: set_curRetry_def update_node_def)
  with None have "parallel_exec H a [x] s = (Inl no_this_error, s)"
    by (simp add: parallel_exec_def task_start_def attempt_def note_rejection_def
          settle_all_settled)
  with None show ?thesis
    by (intro exI[of _ "schedule s"]) (simp add: AsyncNode_exec_def)
next
  case (Some n)
  let ?s0 = "set_curRetry a 0 s"
  have n0: "node_at (heap ?s0) a = Some (n\<lparr>curRetry := 0\<rparr>)"
    using Some
    by (auto simp: set_curRetry_def update_node_def node_at_def obj_at_def
          split: if_splits option.splits obj.splits)
  have s0: "?s0\<lparr>schedule := schedule s\<rparr> = ?s0" by (simp add: set_curRetry_def)
  obtain r s' where lp:
    "async_retry_loop (H (impl n)) a (maxRetries n) (wait n) 0 x ?s0 = (r, s')"
    by (cases "async_retry_loop (H (impl n)) a (maxRetries n) (wait n) 0 x ?s0")
  obtain t s1 where at: "attempt H a x ?s0 = (t, s1)" by (cases "attempt H a x ?s0")
  have rj: "rejection_of t = None"
    using at n0 by (auto simp: attempt_def split: if_splits prod.splits)
  from single_call_as_loop[OF n0, of 0 "maxRetries n" "wait n" H "H (impl n)" x "schedule s"]
  obtain sch' where "settle_all H a [t] None s1
      = (rejection_of (Settled r), [Settled r], s'\<lparr>schedule := sch'\<rparr>)"
    using s0 at lp by auto
  then have "parallel_exec H a [x] s =
      (case r of Inl e \<Rightarrow> (Inl e, s'\<lparr>schedule := sch'\<rparr>)
               | Inr v \<Rightarrow> (Inr (JArr [v]), s'\<lparr>schedule := sch'\<rparr>))"
    using at rj
    by (cases r) (simp_all add: parallel_exec_def task_start_def note_rejection_def)
  moreover have "AsyncNode_exec H a x s = (r, s')"
    using Some lp by (simp add: AsyncNode_exec_def)
  ultimately show ?thesis
    by (intro exI[of _ sch']) (simp split: sum.splits)
qed







lemma frame_after_first_event:
  assumes "frame (length (heap s)) (record_event ev s) s'"
  shows "take (length (heap s)) (heap s') = heap s
     \<and> (\<exists>es. trace s' = trace s @ ev # es
           \<and> list_all (\<lambda>e. length (heap s) \<le> event_this e) es)"
  using assms by (auto simp: frame_def record_event_def)


lemma take_take_prefix:
  assumes "take n ys = xs" "n \<le> length ys" "take (length ys) zs = ys"
  shows "take n zs = xs"
proof -
  have "take n zs = take n (take (length ys) zs)"
    using assms(2) by (simp add: min_def)
  then show ?thesis using assms(1,3) by simp
qed

lemma obj_at_prefix:
  assumes "take (length h) h' = h"
  shows "obj_at h a = Some ob \<Longrightarrow> obj_at h' a = Some ob"
proof -
  assume a: "obj_at h a = Some ob"
  then have al: "a < length h" and ob: "h ! a = ob"
    by (auto simp: obj_at_def split: if_splits)
  have "length (take (length h) h') = length h"
    using assms by simp
  then have "length h \<le> length h'"
    by simp
  moreover have "h' ! a = take (length h) h' ! a" using al by simp
  ultimately show ?thesis using al ob assms by (simp add: obj_at_def)
qed

subsection \<open>Parameter isolation\<close>


text \<open>The definitions a concrete run unfolds to.\<close>

lemmas eval_defs =
  orchestrate_def Flow_orchestrate_def flow_state_def flow_store_def
  initial_state_def initial_handlers_def record_event_def node_at_def obj_at_def succ_at_def
  example_node_def new_object_def spread_into_def own_props_def
  shallowCopy_member_def shallowCopy_def setParams_def update_node_def
  run_step_def BaseNode_run_def call_prep_def call_post_def dispatch_exec_def
  BaseNode_exec_def call_exec_def call_execFallback_def Node_exec_def retry_loop.simps
  set_curRetry_def curRetry_of_def flow_hooks_def batch_hooks_def failing_batch_hooks_def
  batch_prep_hooks_def echo_hooks_def failing_hooks_def default_hooks_def
  is_async_node_class_def is_async_flow_class_def
  getNextNode_def succ_get_def object_proto_member_def object_prototype_names_def
  object_keys_def warn_def Let_def Flow_run_def BatchFlow_run_def sub_run_def





lemma batch_flow_eval:
  "node_run batch_hooks 4 6 JNull (flow_state BatchFlow) = Some (Inr JNull, batch_final)"
  by (simp add: eval_defs batch_final_def eval_nat_numeral)

lemma failed_eval:
  "node_run failing_batch_hooks 4 6 JNull (flow_state BatchFlow)
     = Some (Inl (JStr ''boom''), failed_final)"
  by (simp add: eval_defs failed_final_def eval_nat_numeral)

subsection \<open>BatchFlow\<close>

lemma own_props_prefix:
  assumes "take (length h0) h = h0" and "ref_ok h0 v"
  shows "own_props h v = own_props h0 v"
proof (cases v)
  case (JRef a)
  with assms(2) have al: "a < length h0" by (simp add: ref_ok_def)
  then obtain ob where ob: "obj_at h0 a = Some ob" by (simp add: obj_at_def)
  from obj_at_prefix[OF assms(1) ob] ob JRef show ?thesis
    by (simp add: own_props_def)
qed (simp_all add: own_props_def)

lemma node_at_prefix:
  assumes "take (length h0) h = h0" and "node_at h0 a = Some n"
  shows "node_at h a = Some n"
  using assms obj_at_prefix[OF assms(1), of a "ONode n"]
  by (auto simp: node_at_def split: option.splits obj.splits)

lemma data_at_prefix:
  assumes "take (length h0) h = h0" and "data_at h0 a = Some kvs"
  shows "data_at h a = Some kvs"
  using assms obj_at_prefix[OF assms(1), of a "OData kvs"]
  by (auto simp: data_at_def split: option.splits obj.splits)

lemma prefix_trans:
  assumes "take (length h0) h1 = h0" and "take (length h1) h2 = h1"
  shows "take (length h0) h2 = h0"
proof -
  have "length (take (length h0) h1) = length h0" using assms(1) by simp
  then have l: "length h0 \<le> length h1" by simp
  show ?thesis
    using take_take_prefix[OF assms(1) l assms(2)] .
qed

lemma prefix_of_take:
  assumes "take N h2 = take N h1" and "length h1 \<le> length h2" and "N = length h1"
  shows "take (length h1) h2 = h1"
  using assms by simp

lemma Flow_orchestrate_step:
  assumes "runner_ok rn" and "Flow_orchestrate rn k f shared ps s = Some (r, s')"
    and "f < length (heap s)"
  shows "take (length (heap s)) (heap s') = heap s"
    and "\<exists>es. trace s' = trace s @ EvOrchestrate f ps # es
           \<and> filter (orchestrate_of f) es = [] \<and> filter (post_of f) es = []"
proof -
  from Flow_orchestrate_frame[OF assms(1,2), of "length (heap s)"]
  have fr: "frame (length (heap s)) (record_event (EvOrchestrate f ps) s) s'" by simp
  from frame_after_first_event[OF fr]
  obtain es where es: "take (length (heap s)) (heap s') = heap s"
    "trace s' = trace s @ EvOrchestrate f ps # es"
    "list_all (\<lambda>e. length (heap s) \<le> event_this e) es" by blast
  show "take (length (heap s)) (heap s') = heap s" by (rule es(1))
  have "\<not> orchestrate_of f e \<and> \<not> post_of f e" if "e \<in> set es" for e
  proof -
    from es(3) that have "length (heap s) \<le> event_this e" by (simp add: list_all_iff)
    with assms(3) have "event_this e \<noteq> f" by simp
    then show ?thesis by (cases e) simp_all
  qed
  then have "filter (orchestrate_of f) es = [] \<and> filter (post_of f) es = []"
    by (simp add: filter_empty_conv)
  with es(2) show "\<exists>es. trace s' = trace s @ EvOrchestrate f ps # es
           \<and> filter (orchestrate_of f) es = [] \<and> filter (post_of f) es = []"
    by blast
qed

lemma batch_loop_chain:
  assumes "runner_ok rn" and "batch_loop rn k f shared bps s = Some (r, s')"
    and "take (length h0) (heap s) = h0" and "node_at h0 f = Some n"
    and "ref_ok h0 (params n)" and "list_all (ref_ok h0) bps"
  shows "\<exists>ss rs es. length ss = Suc (length rs) \<and> length rs \<le> length bps
      \<and> ss ! 0 = s \<and> last ss = s'
      \<and> (\<forall>i < length rs.
            sub_run rn k f shared (bps ! i) (ss ! i) = Some (rs ! i, ss ! Suc i)
            \<and> (Suc i < length rs \<longrightarrow> (\<exists>act. rs ! i = Inr act))
            \<and> data_at (heap s') (length (heap (ss ! i))) =
                Some (spread_into (spread_into [] (own_props h0 (params n)))
                        (own_props h0 (bps ! i))))
      \<and> trace s' = trace s @ es
      \<and> filter (orchestrate_of f) es =
          map (\<lambda>i. EvOrchestrate f (JRef (length (heap (ss ! i))))) [0 ..< length rs]
      \<and> filter (post_of f) es = []
      \<and> take (length (heap s)) (heap s') = heap s
      \<and> ((r = Inr JUndefined \<and> length rs = length bps
             \<and> (\<forall>i < length rs. \<exists>act. rs ! i = Inr act))
          \<or> (\<exists>e. r = Inl e \<and> rs \<noteq> [] \<and> last rs = Inl e))"
  using assms(2,3,6)
proof (induction bps arbitrary: s)
  case Nil
  then have "s' = s" "r = Inr JUndefined" by simp_all
  then show ?case
    by (intro exI[of _ "[s]"] exI[of _ "[]"]) simp
next
  case (Cons bp bps)
  have nf: "node_at (heap s) f = Some n"
    by (rule node_at_prefix[OF Cons.prems(2) assms(4)])
  then have fl: "f < length (heap s)"
    by (auto simp: node_at_def obj_at_def split: if_splits)
  let ?kvs = "spread_into (spread_into [] (own_props h0 (params n))) (own_props h0 bp)"
  have kv: "spread_into (spread_into [] (own_props (heap s) (case node_at (heap s) f of
                                                                   Some n \<Rightarrow> params n
                                                                 | None \<Rightarrow> JUndefined)))
                (own_props (heap s) bp) = ?kvs"
    using own_props_prefix[OF Cons.prems(2) assms(5)] own_props_prefix[OF Cons.prems(2), of bp]
      Cons.prems(3) nf by simp
  let ?x = "length (heap s)"
  let ?s1 = "s\<lparr>heap := heap s @ [OData ?kvs]\<rparr>"
  have no: "new_object ?kvs s = (JRef ?x, ?s1)" by (simp add: new_object_def)
  have sr: "sub_run rn k f shared bp s = Flow_orchestrate rn k f shared (JRef ?x) ?s1"
    using kv no by (simp add: sub_run_def)
  have h1: "take (length (heap s)) (heap ?s1) = heap s" by simp
  have fl1: "f < length (heap ?s1)" using fl by simp
  have d1: "data_at (heap ?s1) ?x = Some ?kvs"
    by (simp add: data_at_def obj_at_def)
  show ?case
  proof (cases "sub_run rn k f shared bp s")
    case None
    with Cons.prems(1) show ?thesis by simp
  next
    case (Some rs2)
    obtain r2 s2 where rs2: "rs2 = (r2, s2)" by (cases rs2)
    have fo: "Flow_orchestrate rn k f shared (JRef ?x) ?s1 = Some (r2, s2)"
      using Some rs2 sr by simp
    note st = Flow_orchestrate_step[OF assms(1) fo fl1]
    from st(2) obtain es1 where es1: "trace s2 = trace s @ EvOrchestrate f (JRef ?x) # es1"
      "filter (orchestrate_of f) es1 = []" "filter (post_of f) es1 = []" by auto
    have h2: "take (length (heap s)) (heap s2) = heap s"
      by (rule prefix_trans[OF h1 st(1)])
    have d2: "data_at (heap s2) ?x = Some ?kvs"
      by (rule data_at_prefix[OF st(1) d1])
    show ?thesis
    proof (cases r2)
      case (Inl e)
      with Cons.prems(1) Some rs2 have rs: "r = Inl e" "s' = s2" by simp_all
      have step: "\<forall>i < length [Inl e :: outcome].
            sub_run rn k f shared ((bp # bps) ! i) ([s, s2] ! i)
              = Some ([Inl e] ! i, [s, s2] ! Suc i)
            \<and> (Suc i < length [Inl e :: outcome] \<longrightarrow> (\<exists>act. [Inl e] ! i = Inr act))
            \<and> data_at (heap s') (length (heap ([s, s2] ! i))) =
                Some (spread_into (spread_into [] (own_props h0 (params n)))
                        (own_props h0 ((bp # bps) ! i)))"
        using Some rs2 Inl d2 rs by simp
      have ev: "filter (orchestrate_of f) (EvOrchestrate f (JRef ?x) # es1) =
          map (\<lambda>i. EvOrchestrate f (JRef (length (heap ([s, s2] ! i)))))
            [0 ..< length [Inl e :: outcome]]"
        using es1(2) by simp
      show ?thesis
        apply (intro exI[of _ "[s, s2]"] exI[of _ "[Inl e]"]
            exI[of _ "EvOrchestrate f (JRef ?x) # es1"] conjI)
                 apply simp
                apply simp
               apply simp
              apply (simp add: rs)
             apply (rule step)
            apply (simp add: rs es1(1))
           apply (rule ev)
          apply (simp add: es1(3))
         apply (simp add: rs h2)
        apply (simp add: rs)
        done
    next
      case (Inr act)
      with Cons.prems(1) Some rs2
      have rec: "batch_loop rn k f shared bps s2 = Some (r, s')" by simp
      have p2: "take (length h0) (heap s2) = h0"
        by (rule prefix_trans[OF Cons.prems(2) h2])
      have bl: "list_all (ref_ok h0) bps" using Cons.prems(3) by simp
      from Cons.IH[OF rec p2 bl]
      obtain ss rs es where ih:
        "length ss = Suc (length rs)" "length rs \<le> length bps" "ss ! 0 = s2" "last ss = s'"
        "\<forall>i < length rs.
            sub_run rn k f shared (bps ! i) (ss ! i) = Some (rs ! i, ss ! Suc i)
            \<and> (Suc i < length rs \<longrightarrow> (\<exists>act. rs ! i = Inr act))
            \<and> data_at (heap s') (length (heap (ss ! i))) =
                Some (spread_into (spread_into [] (own_props h0 (params n)))
                        (own_props h0 (bps ! i)))"
        "trace s' = trace s2 @ es"
        "filter (orchestrate_of f) es =
          map (\<lambda>i. EvOrchestrate f (JRef (length (heap (ss ! i))))) [0 ..< length rs]"
        "filter (post_of f) es = []"
        "take (length (heap s2)) (heap s') = heap s2"
        "(r = Inr JUndefined \<and> length rs = length bps
             \<and> (\<forall>i < length rs. \<exists>act. rs ! i = Inr act))
          \<or> (\<exists>e. r = Inl e \<and> rs \<noteq> [] \<and> last rs = Inl e)"
        by blast
      have ne: "ss \<noteq> []" using ih(1) by auto
      have h3: "take (length (heap s)) (heap s') = heap s"
        by (rule prefix_trans[OF h2 ih(9)])
      have d3: "data_at (heap s') ?x = Some ?kvs"
        by (rule data_at_prefix[OF ih(9) d2])
      let ?ss = "s # ss" and ?rs = "Inr act # rs"
      have step: "\<forall>i < length ?rs.
            sub_run rn k f shared ((bp # bps) ! i) (?ss ! i) = Some (?rs ! i, ?ss ! Suc i)
            \<and> (Suc i < length ?rs \<longrightarrow> (\<exists>act. ?rs ! i = Inr act))
            \<and> data_at (heap s') (length (heap (?ss ! i))) =
                Some (spread_into (spread_into [] (own_props h0 (params n)))
                        (own_props h0 ((bp # bps) ! i)))"
      proof (intro allI impI)
        fix i assume il: "i < length ?rs"
        show "sub_run rn k f shared ((bp # bps) ! i) (?ss ! i) = Some (?rs ! i, ?ss ! Suc i)
            \<and> (Suc i < length ?rs \<longrightarrow> (\<exists>act. ?rs ! i = Inr act))
            \<and> data_at (heap s') (length (heap (?ss ! i))) =
                Some (spread_into (spread_into [] (own_props h0 (params n)))
                        (own_props h0 ((bp # bps) ! i)))"
        proof (cases i)
          case 0
          then show ?thesis using Some rs2 Inr ih(3) d3 by simp
        next
          case (Suc j)
          with il have "j < length rs" by simp
          with ih(5) Suc show ?thesis by simp
        qed
      qed
      have ev: "filter (orchestrate_of f) (EvOrchestrate f (JRef ?x) # es1 @ es) =
          map (\<lambda>i. EvOrchestrate f (JRef (length (heap (?ss ! i))))) [0 ..< length ?rs]"
        using es1(2) ih(7) by (simp add: map_upt_Suc del: upt_Suc)
      have fin: "(r = Inr JUndefined \<and> length ?rs = length (bp # bps)
             \<and> (\<forall>i < length ?rs. \<exists>act. ?rs ! i = Inr act))
          \<or> (\<exists>e. r = Inl e \<and> ?rs \<noteq> [] \<and> last ?rs = Inl e)"
        using ih(10)
      proof
        assume a: "r = Inr JUndefined \<and> length rs = length bps
             \<and> (\<forall>i < length rs. \<exists>act. rs ! i = Inr act)"
        have "\<exists>act'. ?rs ! i = Inr act'" if "i < length ?rs" for i
          using that a by (cases i) simp_all
        with a show ?thesis by simp
      next
        assume "\<exists>e. r = Inl e \<and> rs \<noteq> [] \<and> last rs = Inl e"
        then show ?thesis by auto
      qed
      show ?thesis
        apply (intro exI[of _ ?ss] exI[of _ ?rs]
            exI[of _ "EvOrchestrate f (JRef ?x) # es1 @ es"] conjI)
                 apply (simp add: ih(1))
                apply (simp add: ih(2))
               apply simp
              apply (simp add: ne ih(4))
             apply (rule step)
            apply (simp add: ih(6) es1(1))
           apply (rule ev)
          apply (simp add: es1(3) ih(8))
         apply (rule h3)
        apply (rule fin)
        done
    qed
  qed
qed

lemma map_of_spread_into:
  "map_of (spread_into t kvs) k =
     (case map_of (rev kvs) k of Some v \<Rightarrow> Some v | None \<Rightarrow> map_of t k)"
proof (induction kvs arbitrary: t)
  case Nil
  show ?case by (simp add: spread_into_def)
next
  case (Cons kv kvs)
  have "spread_into t (kv # kvs) = spread_into (assign (fst kv) (snd kv) t) kvs"
    by (simp add: spread_into_def)
  then show ?case
    using Cons.IH[of "assign (fst kv) (snd kv) t"]
    by (cases kv) (auto simp: map_of_assign map_of_assign_other map_add_def split: option.splits)
qed

text \<open>
  C4, as the specification states it, says that a run of a \<open>BatchFlow\<close> whose \<open>prep\<close>
  yields \<open>n\<close> parameter sets always makes \<open>n\<close> orchestrations and then calls \<open>post\<close>.
  Here \<open>prep\<close> yields two parameter sets and the start node's \<open>exec\<close> throws: the
  first orchestration throws, the second is never made and \<open>post\<close> is not called.
\<close>

theorem BatchFlow_run_abort_counterexample:
  "fst (prep (failing_batch_hooks 1) 6 (heap (flow_state BatchFlow)) JNull ())
     = Inr (JArr [JRef 9, JRef 10])
   \<and> node_run failing_batch_hooks 4 6 JNull (flow_state BatchFlow)
       = Some (Inl (JStr ''boom''), failed_final)
   \<and> filter (orchestrate_of 6) (trace failed_final) = [EvOrchestrate 6 (JRef 11)]
   \<and> filter (post_of 6) (trace failed_final) = []"
  using failed_eval
  by (simp add: failed_final_def failing_batch_hooks_def batch_prep_hooks_def default_hooks_def)

text \<open>
  C4 (amended): let \<open>prep\<close> of a \<open>BatchFlow\<close> return the array \<open>[p1, \<dots>, pn]\<close>. A run
  that ends is a chain of sub-runs, one after the other and in input order: the \<open>i\<close>-th
  starts in the state the one before it has left, makes a new object holding the flow's
  own parameters overwritten by the entries of \<open>p_i\<close>, and enters \<open>_orchestrate\<close> on the
  flow with it. Every sub-run but the last one made has returned. Either all \<open>n\<close>
  sub-runs are made and all have returned: then their actions are dropped and the
  result of the run is the result of \<open>post\<close>, called exactly once, last, with the
  parameter array as preparation result and \<open>null\<close> as execution result. Or the last
  sub-run made has thrown: then the run ends with that very error in the state that
  sub-run has left, the later parameter sets are not run and \<open>post\<close> is not called.
\<close>

theorem BatchFlow_run_batches:
  assumes "node_at (heap s) f = Some n" and "cls n = BatchFlow"
    and "fst (prep (H (impl n)) f (heap s) shared (world s)) = Inr (JArr bps)"
    and "ref_ok (heap s) (params n)" and "list_all (ref_ok (heap s)) bps"
    and "node_run H (Suc k) f shared s = Some (r, s')"
  shows "\<exists>ss rs es.
        length ss = Suc (length rs) \<and> length rs \<le> length bps
      \<and> ss ! 0 = snd (call_prep (H (impl n)) f shared s)
      \<and> (\<forall>i < length rs.
            sub_run (node_run H k) k f shared (bps ! i) (ss ! i) = Some (rs ! i, ss ! Suc i)
            \<and> (Suc i < length rs \<longrightarrow> (\<exists>act. rs ! i = Inr act))
            \<and> data_at (heap s') (length (heap (ss ! i))) =
                Some (spread_into (spread_into [] (own_props (heap s) (params n)))
                        (own_props (heap s) (bps ! i)))
            \<and> (\<forall>key. map_of (spread_into (spread_into [] (own_props (heap s) (params n)))
                                (own_props (heap s) (bps ! i))) key =
                  (case map_of (rev (own_props (heap s) (bps ! i))) key of
                     Some v \<Rightarrow> Some v
                   | None \<Rightarrow> map_of (rev (own_props (heap s) (params n))) key)))
      \<and> trace s' = trace s @ EvPrep f shared (Inr (JArr bps)) # es
      \<and> filter (orchestrate_of f) es =
          map (\<lambda>i. EvOrchestrate f (JRef (length (heap (ss ! i))))) [0 ..< length rs]
      \<and> take (length (heap s)) (heap s') = heap s
      \<and> ((length rs = length bps \<and> (\<forall>i < length rs. \<exists>act. rs ! i = Inr act)
            \<and> call_post (H (impl n)) f shared (JArr bps) JNull (last ss) = (r, s')
            \<and> filter (post_of f) es = [EvPost f shared (JArr bps) JNull r]
            \<and> last es = EvPost f shared (JArr bps) JNull r)
          \<or> (\<exists>e. rs \<noteq> [] \<and> last rs = Inl e \<and> r = Inl e \<and> s' = last ss
                \<and> filter (post_of f) es = []))"
proof -
  let ?hk = "H (impl n)"
  let ?rn = "node_run H k"
  obtain r1 s1 where p: "call_prep ?hk f shared s = (r1, s1)"
    by (cases "call_prep ?hk f shared s")
  with assms(3) have r1: "r1 = Inr (JArr bps)"
    and h1: "heap s1 = heap s"
    and t1: "trace s1 = trace s @ [EvPrep f shared (Inr (JArr bps))]"
    by (auto simp: call_prep_def record_event_def split: prod.splits)
  have bf: "BatchFlow_run H ?rn k n f shared s = Some (r, s')"
    using assms(1,2,6) by (simp add: run_step_def)
  have merge: "map_of (spread_into (spread_into [] kvs1) kvs2) key =
                  (case map_of (rev kvs2) key of
                     Some v \<Rightarrow> Some v
                   | None \<Rightarrow> map_of (rev kvs1) key)" for kvs1 kvs2 key
    by (simp add: map_of_spread_into split: option.splits)
  show ?thesis
  proof (cases "batch_loop ?rn k f shared bps s1")
    case None
    with bf p r1 show ?thesis by (simp add: BatchFlow_run_def)
  next
    case (Some rs2)
    obtain r2 s2 where rs2: "rs2 = (r2, s2)" by (cases rs2)
    have pre: "take (length (heap s)) (heap s1) = heap s" using h1 by simp
    from batch_loop_chain[OF node_run_ok Some[unfolded rs2] pre assms(1,4,5)]
    obtain ss rs es where bl:
      "length ss = Suc (length rs)" "length rs \<le> length bps" "ss ! 0 = s1" "last ss = s2"
      "\<forall>i < length rs.
          sub_run ?rn k f shared (bps ! i) (ss ! i) = Some (rs ! i, ss ! Suc i)
          \<and> (Suc i < length rs \<longrightarrow> (\<exists>act. rs ! i = Inr act))
          \<and> data_at (heap s2) (length (heap (ss ! i))) =
              Some (spread_into (spread_into [] (own_props (heap s) (params n)))
                      (own_props (heap s) (bps ! i)))"
      "trace s2 = trace s1 @ es"
      "filter (orchestrate_of f) es =
          map (\<lambda>i. EvOrchestrate f (JRef (length (heap (ss ! i))))) [0 ..< length rs]"
      "filter (post_of f) es = []"
      "take (length (heap s1)) (heap s2) = heap s1"
      "(r2 = Inr JUndefined \<and> length rs = length bps
           \<and> (\<forall>i < length rs. \<exists>act. rs ! i = Inr act))
        \<or> (\<exists>e. r2 = Inl e \<and> rs \<noteq> [] \<and> last rs = Inl e)"
      by blast
    have s0: "ss ! 0 = snd (call_prep ?hk f shared s)" using bl(3) p by simp
    show ?thesis
    proof (cases r2)
      case (Inl e)
      with bf p r1 Some rs2 have rs: "r = Inl e" "s' = s2" by (simp_all add: BatchFlow_run_def)
      have last: "rs \<noteq> [] \<and> last rs = Inl e" using bl(10) Inl by auto
      have step: "\<forall>i < length rs.
            sub_run ?rn k f shared (bps ! i) (ss ! i) = Some (rs ! i, ss ! Suc i)
            \<and> (Suc i < length rs \<longrightarrow> (\<exists>act. rs ! i = Inr act))
            \<and> data_at (heap s') (length (heap (ss ! i))) =
                Some (spread_into (spread_into [] (own_props (heap s) (params n)))
                        (own_props (heap s) (bps ! i)))
            \<and> (\<forall>key. map_of (spread_into (spread_into [] (own_props (heap s) (params n)))
                                (own_props (heap s) (bps ! i))) key =
                  (case map_of (rev (own_props (heap s) (bps ! i))) key of
                     Some v \<Rightarrow> Some v
                   | None \<Rightarrow> map_of (rev (own_props (heap s) (params n))) key))"
        using bl(5) rs(2) merge by simp
      have fin: "\<exists>e. rs \<noteq> [] \<and> last rs = Inl e \<and> r = Inl e \<and> s' = last ss
                \<and> filter (post_of f) es = []"
        using last rs bl(4,8) by simp
      show ?thesis
        apply (intro exI[of _ ss] exI[of _ rs] exI[of _ es] conjI)
              apply (rule bl(1))
             apply (rule bl(2))
            apply (rule s0)
           apply (rule step)
          apply (simp add: rs bl(6) t1)
         apply (rule bl(7))
        apply (simp add: rs bl(9) h1[symmetric])
        apply (rule disjI2)
        apply (rule fin)
        done
    next
      case (Inr u)
      with bf p r1 Some rs2
      have po: "call_post ?hk f shared (JArr bps) JNull s2 = (r, s')"
        by (simp add: BatchFlow_run_def)
      then have h3: "heap s' = heap s2"
        and t3: "trace s' = trace s2 @ [EvPost f shared (JArr bps) JNull r]"
        by (auto simp: call_post_def record_event_def split: prod.splits)
      have all: "length rs = length bps \<and> (\<forall>i < length rs. \<exists>act. rs ! i = Inr act)"
        using bl(10) Inr by auto
      have step: "\<forall>i < length rs.
            sub_run ?rn k f shared (bps ! i) (ss ! i) = Some (rs ! i, ss ! Suc i)
            \<and> (Suc i < length rs \<longrightarrow> (\<exists>act. rs ! i = Inr act))
            \<and> data_at (heap s') (length (heap (ss ! i))) =
                Some (spread_into (spread_into [] (own_props (heap s) (params n)))
                        (own_props (heap s) (bps ! i)))
            \<and> (\<forall>key. map_of (spread_into (spread_into [] (own_props (heap s) (params n)))
                                (own_props (heap s) (bps ! i))) key =
                  (case map_of (rev (own_props (heap s) (bps ! i))) key of
                     Some v \<Rightarrow> Some v
                   | None \<Rightarrow> map_of (rev (own_props (heap s) (params n))) key))"
        using bl(5) h3 merge by simp
      let ?es = "es @ [EvPost f shared (JArr bps) JNull r]"
      have ev: "filter (orchestrate_of f) ?es =
          map (\<lambda>i. EvOrchestrate f (JRef (length (heap (ss ! i))))) [0 ..< length rs]"
        using bl(7) by simp
      have fin: "length rs = length bps \<and> (\<forall>i < length rs. \<exists>act. rs ! i = Inr act)
            \<and> call_post ?hk f shared (JArr bps) JNull (last ss) = (r, s')
            \<and> filter (post_of f) ?es = [EvPost f shared (JArr bps) JNull r]
            \<and> last ?es = EvPost f shared (JArr bps) JNull r"
        using all po bl(4,8) by simp
      show ?thesis
        apply (intro exI[of _ ss] exI[of _ rs] exI[of _ ?es] conjI)
              apply (rule bl(1))
             apply (rule bl(2))
            apply (rule s0)
           apply (rule step)
          apply (simp add: t3 bl(6) t1)
         apply (rule ev)
        apply (simp add: h3 bl(9) h1[symmetric])
        apply (rule disjI1)
        apply (rule fin)
        done
    qed
  qed
qed

lemma batch_flow_facts:
  "node_at (heap (flow_state BatchFlow)) 6
     = Some ((example_node BatchFlow 7) \<lparr> impl := 1, startNode := JRef 0 \<rparr>)"
  "cls ((example_node BatchFlow 7) \<lparr> impl := 1, startNode := JRef 0 \<rparr>)
     = BatchFlow"
  "fst (prep (batch_hooks
               (impl ((example_node BatchFlow 7) \<lparr> impl := 1, startNode := JRef 0 \<rparr>)))
          6 (heap (flow_state BatchFlow)) JNull (world (flow_state BatchFlow)))
     = Inr (JArr [JRef 9, JRef 10])"
  "ref_ok (heap (flow_state BatchFlow))
     (params ((example_node BatchFlow 7) \<lparr> impl := 1, startNode := JRef 0 \<rparr>))"
  "list_all (ref_ok (heap (flow_state BatchFlow))) [JRef 9, JRef 10]"
  by (simp_all add: flow_state_def flow_store_def initial_state_def node_at_def obj_at_def
      example_node_def batch_hooks_def batch_prep_hooks_def default_hooks_def ref_ok_def)

theorem BatchFlow_run_batches_witness:
  "node_at (heap (flow_state BatchFlow)) 6
     = Some ((example_node BatchFlow 7) \<lparr> impl := 1, startNode := JRef 0 \<rparr>)
   \<and> list_all (ref_ok (heap (flow_state BatchFlow))) [JRef 9, JRef 10]
   \<and> node_run batch_hooks (Suc 3) 6 JNull (flow_state BatchFlow) = Some (Inr JNull, batch_final)
   \<and> filter (orchestrate_of 6) (trace batch_final)
        = [EvOrchestrate 6 (JRef 11), EvOrchestrate 6 (JRef 14)]
   \<and> data_at (heap batch_final) 14 = Some [(''user'', JStr ''bob''), (''id'', JNum 2)]
   \<and> filter (post_of 6) (trace batch_final)
        = [EvPost 6 JNull (JArr [JRef 9, JRef 10]) JNull (Inr JNull)]
   \<and> (\<exists>ss rs. length ss = Suc (length rs) \<and> length rs \<le> length [JRef 9, JRef 10 :: jsval]
        \<and> (\<forall>i < length rs.
              sub_run (node_run batch_hooks 3) 3 6 JNull ([JRef 9, JRef 10] ! i) (ss ! i)
                = Some (rs ! i, ss ! Suc i)))"
proof -
  have run: "node_run batch_hooks (Suc 3) 6 JNull (flow_state BatchFlow)
      = Some (Inr JNull, batch_final)"
    using batch_flow_eval by (simp add: eval_nat_numeral)
  have conc: "filter (orchestrate_of 6) (trace batch_final)
        = [EvOrchestrate 6 (JRef 11), EvOrchestrate 6 (JRef 14)]
   \<and> data_at (heap batch_final) 14 = Some [(''user'', JStr ''bob''), (''id'', JNum 2)]
   \<and> filter (post_of 6) (trace batch_final)
        = [EvPost 6 JNull (JArr [JRef 9, JRef 10]) JNull (Inr JNull)]"
    by (simp add: batch_final_def data_at_def obj_at_def flow_store_def)
  have "\<exists>ss rs. length ss = Suc (length rs) \<and> length rs \<le> length [JRef 9, JRef 10 :: jsval]
        \<and> (\<forall>i < length rs.
              sub_run (node_run batch_hooks 3) 3 6 JNull ([JRef 9, JRef 10] ! i) (ss ! i)
                = Some (rs ! i, ss ! Suc i))"
    using BatchFlow_run_batches[OF batch_flow_facts run] by blast
  then show ?thesis
    using batch_flow_facts(1,5) run conc by blast
qed

subsection \<open>The per-step clone\<close>

lemma shallowCopy_node:
  assumes "node_at (heap s) a = Some n"
  shows "shallowCopy (JRef a) s = (JRef (length (heap s)), s\<lparr>heap := heap s @ [ONode n]\<rparr>)"
  using assms
  by (auto simp: shallowCopy_def node_at_def split: option.splits obj.splits)

lemma node_at_append:
  "node_at (h @ [ob]) x =
     (if x < length h then node_at h x
      else if x = length h then (case ob of ONode n \<Rightarrow> Some n | _ \<Rightarrow> None) else None)"
  by (auto simp: node_at_def obj_at_def nth_append split: obj.splits)

lemma succ_at_append:
  "succ_at (h @ [ob]) x =
     (if x < length h then succ_at h x
      else if x = length h then (case ob of OSucc so \<Rightarrow> Some so | _ \<Rightarrow> None) else None)"
  by (auto simp: succ_at_def obj_at_def nth_append split: obj.splits)

lemma data_at_append:
  "data_at (h @ [ob]) x =
     (if x < length h then data_at h x
      else if x = length h then (case ob of OData kvs \<Rightarrow> Some kvs | _ \<Rightarrow> None) else None)"
  by (auto simp: data_at_def obj_at_def nth_append split: obj.splits)

lemma data_at_update_node: "data_at (update_node a f h) x = data_at h x"
  by (auto simp: update_node_def data_at_def node_at_def obj_at_def nth_list_update
      split: option.splits obj.splits)

lemma succ_at_update_node: "succ_at (update_node a f h) x = succ_at h x"
  by (auto simp: update_node_def succ_at_def node_at_def obj_at_def nth_list_update
      split: option.splits obj.splits)

lemma data_at_data_assign:
  "oa \<noteq> pa \<Longrightarrow> data_at (heap (data_assign pa k v s)) oa = data_at (heap s) oa"
  by (auto simp: data_assign_def data_at_def obj_at_def nth_list_update split: option.splits)

lemma data_at_bound: "data_at h x = Some kvs \<Longrightarrow> x < length h"
  by (auto simp: data_at_def obj_at_def split: if_splits)

lemma node_at_bound: "node_at h x = Some n \<Longrightarrow> x < length h"
  by (auto simp: node_at_def obj_at_def split: if_splits)

lemma succ_at_bound: "succ_at h x = Some so \<Longrightarrow> x < length h"
  by (auto simp: succ_at_def obj_at_def split: if_splits)

text \<open>
  C8, as the specification states it, says that the clone has successor and parameter
  maps of its own. \<open>shallowCopy\<close> copies the fields of the node as they are, so the
  clone's \<open>successors\<close> is the very table of the original: registering a successor
  through the clone of A (address 11) changes what A's table holds.
\<close>

theorem shallow_clone_counterexample:
  "successor_of (heap (flow_state Flow)) 0 ''x'' = Some (Val JUndefined)
   \<and> fst (shallowCopy (JRef 0) (flow_state Flow)) = JRef 11
   \<and> successor_of
       (heap (snd (node_next 11 (JRef 3) (JStr ''x'') (snd (shallowCopy (JRef 0) (flow_state Flow))))))
       0 ''x'' = Some (Val (JRef 3))"
  by (simp add: flow_state_def flow_store_def initial_state_def shallowCopy_def node_next_def
      successor_of_def node_at_def succ_at_def obj_at_def example_node_def succ_get_def
      succ_set_def object_proto_member_def object_prototype_names_def
      instanceof_BaseNode_def Let_def)

text \<open>
  C8 (amended): the clone is a new object whose fields hold what the original's hold.
  Its \<open>successors\<close> is the same table as the original's, so a change of an entry made
  through the clone is seen through the original. Its \<open>params\<close> is the same reference
  until \<open>setParams\<close> re-points it, on the clone only, to the per-run parameter object
  \<open>p\<close>; the original node keeps its fields, and changing an entry of \<open>p\<close> leaves the
  original's parameter object as it was, unless \<open>p\<close> is that very object.
\<close>

theorem shallow_clone_shares_maps:
  assumes "node_ok (heap s) a" and "node_at (heap s) a = Some n"
    and "node_at (heap s) b \<noteq> None" and "typeof p = ''object''" and "p \<noteq> JNull"
  shows "shallowCopy (JRef a) s = (JRef (length (heap s)), s\<lparr>heap := heap s @ [ONode n]\<rparr>)
    \<and> node_at (heap (snd (shallowCopy (JRef a) s))) (length (heap s)) = Some n
    \<and> node_at (heap (snd (shallowCopy (JRef a) s))) a = Some n
    \<and> node_at (heap (snd (setParams (length (heap s)) p (snd (shallowCopy (JRef a) s)))))
         (length (heap s)) = Some (n\<lparr>params := p\<rparr>)
    \<and> node_at (heap (snd (setParams (length (heap s)) p (snd (shallowCopy (JRef a) s))))) a
         = Some n
    \<and> successor_of
         (heap (snd (node_next (length (heap s)) (JRef b) (JStr k)
                  (snd (setParams (length (heap s)) p (snd (shallowCopy (JRef a) s)))))))
         a k = Some (Val (JRef b))
    \<and> (\<forall>pa oa key v. p = JRef pa \<and> params n = JRef oa \<and> oa \<noteq> pa \<longrightarrow>
          data_at (heap (data_assign pa key v
                     (snd (setParams (length (heap s)) p (snd (shallowCopy (JRef a) s)))))) oa
            = data_at (heap s) oa)"
proof -
  let ?c = "length (heap s)"
  define s1 where "s1 = s\<lparr>heap := heap s @ [ONode n]\<rparr>"
  define s2 where "s2 = s1\<lparr>heap := update_node ?c (\<lambda>n. n\<lparr>params := p\<rparr>) (heap s1)\<rparr>"
  note al = node_at_bound[OF assms(2)]
  have sc: "shallowCopy (JRef a) s = (JRef ?c, s1)"
    unfolding s1_def by (rule shallowCopy_node[OF assms(2)])
  have sp: "setParams ?c p s1 = (Inr (), s2)"
    using assms(4,5) by (simp add: setParams_def s2_def)
  have n1: "node_at (heap s1) ?c = Some n" "node_at (heap s1) a = Some n"
    using assms(2) al by (simp_all add: node_at_append s1_def)
  have n2: "node_at (heap s2) ?c = Some (n\<lparr>params := p\<rparr>)" "node_at (heap s2) a = Some n"
    using n1 al by (simp_all add: node_at_update_node s2_def)
  from assms(1,2) obtain so where so: "succ_at (heap s) (successors n) = Some so"
    and np: "map_of (own so) ''__proto__'' = None"
    by (auto simp: node_ok_def split: option.splits)
  have so2: "succ_at (heap s2) (successors n) = Some so"
    using so succ_at_bound[OF so] by (simp add: succ_at_update_node succ_at_append s1_def s2_def)
  from assms(3) obtain nb where nb: "node_at (heap s) b = Some nb" by auto
  have nb2: "node_at (heap s2) b = Some nb"
    using nb node_at_bound[OF nb] by (simp add: node_at_update_node node_at_append s1_def s2_def)
  have so2': "succ_at (heap s2) (successors (n\<lparr>params := p\<rparr>)) = Some so"
    using so2 by simp
  define s3 where "s3 = snd (node_next ?c (JRef b) (JStr k) s2)"
  have h3: "heap s3 = (heap s2)[successors n := OSucc (succ_set so k b)]"
    using node_next_ok(2)[OF n2(1) so2' nb2] by (simp add: s3_def)
  have a3: "node_at (heap s3) a = Some n"
    unfolding h3 node_at_upd_table[OF so2] by (rule n2(2))
  have t3: "succ_at (heap s3) (successors n) = Some (succ_set so k b)"
    unfolding h3 succ_at_upd_table[OF so2] by simp
  have shared: "successor_of (heap s3) a k = Some (Val (JRef b))"
    by (simp add: successor_of_def a3 t3 succ_get_set[OF np])
  have iso: "data_at (heap (data_assign pa key v s2)) oa = data_at (heap s) oa"
    if "oa \<noteq> pa" for pa oa key v
  proof -
    have out: "data_at (heap s) oa = None" if "\<not> oa < length (heap s)"
      using that by (simp add: data_at_def obj_at_def)
    have "data_at (heap (data_assign pa key v s2)) oa = data_at (heap s2) oa"
      by (rule data_at_data_assign[OF \<open>oa \<noteq> pa\<close>])
    also have "\<dots> = data_at (heap s1) oa"
      by (simp add: s2_def data_at_update_node)
    also have "\<dots> = data_at (heap s) oa"
      using out by (simp add: s1_def data_at_append)
    finally show ?thesis .
  qed
  have e1: "snd (shallowCopy (JRef a) s) = s1" by (simp add: sc)
  have e2: "snd (setParams ?c p s1) = s2" by (simp add: sp)
  show ?thesis
    unfolding e1 e2 s3_def[symmetric]
    using n1 n2 shared iso sc by (simp add: s1_def[symmetric])
qed

lemma flow_a_facts:
  "node_ok (heap (flow_state Flow)) 0"
  "node_at (heap (flow_state Flow)) 0 = Some (example_node BaseNode 1)"
  "node_at (heap (flow_state Flow)) 3 \<noteq> None"
  "typeof (JRef 8) = ''object''" "JRef 8 \<noteq> JNull"
  by (simp_all add: flow_state_def flow_store_def initial_state_def node_ok_def node_at_def
      succ_at_def obj_at_def example_node_def)

theorem shallow_clone_shares_maps_witness:
  "node_ok (heap (flow_state Flow)) 0
   \<and> node_at (heap (flow_state Flow)) 0 = Some (example_node BaseNode 1)
   \<and> node_at (heap (flow_state Flow)) 3 \<noteq> None
   \<and> typeof (JRef 8) = ''object'' \<and> JRef 8 \<noteq> JNull
   \<and> shallowCopy (JRef 0) (flow_state Flow)
       = (JRef (length (heap (flow_state Flow))),
          (flow_state Flow)\<lparr>heap := heap (flow_state Flow)
             @ [ONode (example_node BaseNode 1)]\<rparr>)
   \<and> successor_of
         (heap (snd (node_next (length (heap (flow_state Flow))) (JRef 3) (JStr ''x'')
                  (snd (setParams (length (heap (flow_state Flow))) (JRef 8)
                          (snd (shallowCopy (JRef 0) (flow_state Flow))))))))
         0 ''x'' = Some (Val (JRef 3))"
  using shallow_clone_shares_maps[OF flow_a_facts, of "''x''"] flow_a_facts
  by blast

subsection \<open>Labels in a running flow\<close>

text \<open>
  The scenario of the specification: A's \<open>post\<close> returns the empty string, and the
  flow goes on to C, the \<open>default\<close> successor; B is not run. With the label
  \<open>toString\<close> instead, the lookup hands the inherited function to the loop, whose
  \<open>currentNode.setParams\<close> then throws: the flow does not end, it fails.
\<close>

lemmas scenario_eval_defs =
  orchestrate_def Flow_orchestrate_def scenario_state_def label_hooks_def
  initial_state_def initial_handlers_def record_event_def node_at_def obj_at_def succ_at_def
  example_node_def new_object_def spread_into_def own_props_def
  shallowCopy_member_def shallowCopy_def setParams_def update_node_def
  run_step_def BaseNode_run_def call_prep_def call_post_def dispatch_exec_def
  BaseNode_exec_def call_exec_def curRetry_of_def default_hooks_def
  is_async_node_class_def is_async_flow_class_def
  getNextNode_def succ_get_def object_proto_member_def object_prototype_names_def
  object_keys_def warn_def Let_def not_a_node_error_def

lemma empty_label_goes_to_default:
  "orchestrate (label_hooks []) 3 9 JNull JNull scenario_state =
     Some (Inr JNull,
       scenario_state
         \<lparr> heap := heap scenario_state @
             [OData [], ONode ((example_node BaseNode 1) \<lparr> params := JRef 12 \<rparr>),
              ONode ((example_node BaseNode 7) \<lparr> impl := 1, params := JRef 12 \<rparr>)],
           trace := [EvOrchestrate 9 JNull,
                     EvPrep 13 JNull (Inr JNull), EvExec 13 0 JNull (Inr JNull),
                     EvPost 13 JNull JNull JNull (Inr (JStr [])),
                     EvPrep 14 JNull (Inr JNull), EvExec 14 0 JNull (Inr JNull),
                     EvPost 14 JNull JNull JNull (Inr JNull)] \<rparr>)"
  by (simp add: scenario_eval_defs numeral_3_eq_3)

lemma inherited_label_breaks_flow:
  "orchestrate (label_hooks ''toString'') 3 9 JNull JNull scenario_state =
     Some (Inl (JError ''TypeError'' ''currentNode.setParams is not a function''),
       scenario_state
         \<lparr> heap := heap scenario_state @
             [OData [], ONode ((example_node BaseNode 1) \<lparr> params := JRef 12 \<rparr>)],
           trace := [EvOrchestrate 9 JNull,
                     EvPrep 13 JNull (Inr JNull), EvExec 13 0 JNull (Inr JNull),
                     EvPost 13 JNull JNull JNull (Inr (JStr ''toString''))] \<rparr>)"
  by (simp add: scenario_eval_defs numeral_3_eq_3)

end
